theory Spec2Isabelle
  imports Complex_Main
begin

section \<open>The Pong server (src/pong/pong.c)\<close>

text \<open>
  The server's \<^verbatim>\<open>int\<close> variables (paddle positions, scores, the serve timer) are
  modelled as \<^typ>\<open>int\<close>; the invariants below keep paddle position and timer far
  from the limits of a 32-bit integer, and a score only grows by one per point.
  The \<^verbatim>\<open>float\<close> fields of the ball are modelled as \<^typ>\<open>real\<close>: every arithmetic
  operation of the source is the exact operation here, the rounding of IEEE single
  precision is not modelled, and \<^verbatim>\<open>M_PI\<close> is \<^term>\<open>pi\<close>.
\<close>

subsection \<open>Constants\<close>

definition FPS :: int where "FPS = 60"
definition FIELD_WIDTH :: int where "FIELD_WIDTH = 80"
definition FIELD_HEIGHT :: int where "FIELD_HEIGHT = 24"
definition PADDLE_HEIGHT :: int where "PADDLE_HEIGHT = 4"
definition PADDLE_WIDTH :: int where "PADDLE_WIDTH = 2"
definition PADDLE_OFFSET_X :: int where "PADDLE_OFFSET_X = 2"
definition SERVE_TIME :: int where "SERVE_TIME = FPS * 3"
definition INITIAL_BALL_SPEED :: real where "INITIAL_BALL_SPEED = 1 / 2"
definition MAX_BALL_SPEED :: real where "MAX_BALL_SPEED = 6 / 5"

subsection \<open>Data\<close>

datatype Input = NONE | UP | DOWN

text \<open>\<^verbatim>\<open>Player\<close>: the fields \<^verbatim>\<open>y\<close> and \<^verbatim>\<open>input\<close>.\<close>

record Player =
  pl_y :: int
  pl_input :: Input

text \<open>\<^verbatim>\<open>Ball\<close>: the fields \<^verbatim>\<open>x\<close>, \<^verbatim>\<open>y\<close>, \<^verbatim>\<open>dx\<close>, \<^verbatim>\<open>dy\<close>,
  \<^verbatim>\<open>serve_timer\<close> and \<^verbatim>\<open>speed\<close>.\<close>

record Ball =
  b_x :: real
  b_y :: real
  b_dx :: real
  b_dy :: real
  serve_timer :: int
  speed :: real

text \<open>
  \<^verbatim>\<open>Client\<close>: the connection handle (\<open>None\<close> is the null pointer) and the player
  id. The fields \<^verbatim>\<open>buffer\<close> and \<^verbatim>\<open>buffer_len\<close> are never read or written by the
  server and are left out.
\<close>

record Client =
  conn :: "nat option"
  cl_id :: int

text \<open>
  What \<^verbatim>\<open>netbuf_data\<close> hands out: the bytes readable from the data pointer (the
  payload first, then whatever memory follows it) and the payload length.
\<close>

record netbuf =
  nb_data :: string
  nb_len :: nat

text \<open>The local variables of \<^verbatim>\<open>pong_thread\<close> that make up the match.\<close>

record Game =
  p1 :: Player
  p2 :: Player
  ball :: Ball
  score1 :: int
  score2 :: int

subsection \<open>C strings\<close>

text \<open>
  A C string is read from a byte list up to the first NUL; the end of the list counts
  as a terminator. \<open>strncmp_eq s t n\<close> is \<^verbatim>\<open>strncmp(s, t, n) == 0\<close>.
\<close>

definition cstr :: "string \<Rightarrow> string" where
  "cstr s = takeWhile (\<lambda>c. c \<noteq> CHR 0x00) s"

definition strncmp_eq :: "string \<Rightarrow> string \<Rightarrow> nat \<Rightarrow> bool" where
  "strncmp_eq s t n = (take n (cstr s) = take n (cstr t))"

subsection \<open>Helpers of the server\<close>

definition clamp_paddle :: "Player \<Rightarrow> Player" where
  "clamp_paddle p =
     (let q = (if pl_y p < 0 then p\<lparr>pl_y := 0\<rparr> else p)
      in if pl_y q > FIELD_HEIGHT - PADDLE_HEIGHT
         then q\<lparr>pl_y := FIELD_HEIGHT - PADDLE_HEIGHT\<rparr> else q)"

definition parse_input_line :: "string \<Rightarrow> Input" where
  "parse_input_line line =
     (if strncmp_eq line ''INPUT:UP'' 8 then UP
      else if strncmp_eq line ''INPUT:DOWN'' 10 then DOWN
      else NONE)"

text \<open>
  \<^verbatim>\<open>rand()\<close> is the C library's; its future results are a parameter, the list of
  draws still to come. The angle computed from one draw:
\<close>

definition serve_angle :: "nat \<Rightarrow> real" where
  "serve_angle r = (real (r mod 1000) / 1000) * (pi / 3) - (pi / 6)"

text \<open>
  The \<^verbatim>\<open>do ... while\<close> loop of \<^verbatim>\<open>reset_ball\<close>: it draws until the angle is steep
  enough. \<open>None\<close> means the listed draws ran out with the loop still running.
\<close>

fun draw_angle :: "nat list \<Rightarrow> (real \<times> nat list) option" where
  "draw_angle [] = None"
| "draw_angle (r # rs) =
     (let angle = serve_angle r
      in if \<bar>sin angle\<bar> < 3 / 10 then draw_angle rs else Some (angle, rs))"

definition reset_ball :: "Ball \<Rightarrow> int \<Rightarrow> nat list \<Rightarrow> (Ball \<times> nat list) option" where
  "reset_ball b serving_player draws =
     (let b1 = b\<lparr>b_x := real_of_int (FIELD_WIDTH div 2),
                 b_y := real_of_int (FIELD_HEIGHT div 2),
                 speed := INITIAL_BALL_SPEED\<rparr>
      in case draw_angle draws of
           None \<Rightarrow> None
         | Some (angle, rest) \<Rightarrow>
             (let dir = (if serving_player = 1 then 1 else - 1 :: real)
              in Some (b1\<lparr>b_dx := dir * speed b1 * cos angle,
                          b_dy := speed b1 * sin angle,
                          serve_timer := SERVE_TIME\<rparr>, rest)))"

subsection \<open>One pass of the main game loop\<close>

text \<open>
  Lines 193 to 212: the reading of one client. The second argument is what
  \<^verbatim>\<open>netconn_recv\<close> delivered in this tick (\<open>None\<close>: no buffer, or an error).
\<close>

definition recv_input :: "Client \<Rightarrow> netbuf option \<Rightarrow> Player \<times> Player \<Rightarrow> Player \<times> Player" where
  "recv_input c r pp =
     (case conn c of
        None \<Rightarrow> pp
      | Some _ \<Rightarrow>
          (case r of
             None \<Rightarrow> pp
           | Some nb \<Rightarrow>
               if nb_len nb \<ge> 5 then
                 (let inp = parse_input_line (nb_data nb)
                  in if cl_id c = 1 then ((fst pp)\<lparr>pl_input := inp\<rparr>, snd pp)
                     else (fst pp, (snd pp)\<lparr>pl_input := inp\<rparr>))
               else pp))"

definition handle_inputs ::
  "Client \<times> Client \<Rightarrow> netbuf option \<times> netbuf option \<Rightarrow> Game \<Rightarrow> Game" where
  "handle_inputs clients rs g =
     (let pp = recv_input (snd clients) (snd rs) (recv_input (fst clients) (fst rs) (p1 g, p2 g))
      in g\<lparr>p1 := fst pp, p2 := snd pp\<rparr>)"

text \<open>Lines 215 to 218 for one player, and lines 215 to 222 for both.\<close>

definition move_paddle :: "Player \<Rightarrow> Player" where
  "move_paddle p =
     (let q = (if pl_input p = UP then p\<lparr>pl_y := pl_y p - 1\<rparr> else p)
      in if pl_input q = DOWN then q\<lparr>pl_y := pl_y q + 1\<rparr> else q)"

definition update_paddles :: "Game \<Rightarrow> Game" where
  "update_paddles g = g\<lparr>p1 := clamp_paddle (move_paddle (p1 g)),
                         p2 := clamp_paddle (move_paddle (p2 g))\<rparr>"

text \<open>Lines 225 to 233: the serve countdown or the movement of the ball.\<close>

definition move_ball :: "Ball \<Rightarrow> Ball" where
  "move_ball b =
     (if serve_timer b > 0 then b\<lparr>serve_timer := serve_timer b - 1\<rparr>
      else b\<lparr>b_x := b_x b + b_dx b, b_y := b_y b + b_dy b\<rparr>)"

text \<open>Lines 236 and 237: the bounce on the top and bottom edges.\<close>

definition bounce_edges :: "Ball \<Rightarrow> Ball" where
  "bounce_edges b =
     (if b_y b < 0 \<or> b_y b > real_of_int (FIELD_HEIGHT - 1)
      then b\<lparr>b_dy := b_dy b * (- 1)\<rparr> else b)"

text \<open>Lines 242 to 252 and 255 to 262: the collisions with the two paddles.\<close>

definition collide_p1 :: "Player \<Rightarrow> Ball \<Rightarrow> Ball" where
  "collide_p1 p b =
     (if b_dx b < 0 \<and> b_x b \<le> real_of_int (PADDLE_OFFSET_X + PADDLE_WIDTH) then
        (if b_y b \<ge> real_of_int (pl_y p) \<and> b_y b \<le> real_of_int (pl_y p + PADDLE_HEIGHT)
         then b\<lparr>b_dx := b_dx b * (- 1)\<rparr> else b)
      else b)"

definition collide_p2 :: "Player \<Rightarrow> Ball \<Rightarrow> Ball" where
  "collide_p2 p b =
     (if b_dx b > 0 \<and> b_x b \<ge> real_of_int (FIELD_WIDTH - PADDLE_OFFSET_X - PADDLE_WIDTH) then
        (if b_y b \<ge> real_of_int (pl_y p) \<and> b_y b \<le> real_of_int (pl_y p + PADDLE_HEIGHT)
         then b\<lparr>b_dx := b_dx b * (- 1)\<rparr> else b)
      else b)"

text \<open>Lines 225 to 262 together: the ball as the scoring test sees it.\<close>

definition ball_physics :: "Game \<Rightarrow> Game" where
  "ball_physics g =
     g\<lparr>ball := collide_p2 (p2 g) (collide_p1 (p1 g) (bounce_edges (move_ball (ball g))))\<rparr>"

text \<open>Lines 265 to 273: scoring and the serve reset.\<close>

definition scoring :: "Game \<times> nat list \<Rightarrow> (Game \<times> nat list) option" where
  "scoring gd =
     (let g = fst gd; draws = snd gd in
      if b_x (ball g) < 0 then
        (case reset_ball (ball g) 1 draws of
           None \<Rightarrow> None
         | Some (b, rest) \<Rightarrow> Some (g\<lparr>score2 := score2 g + 1, ball := b\<rparr>, rest))
      else if b_x (ball g) > real_of_int FIELD_WIDTH then
        (case reset_ball (ball g) 2 draws of
           None \<Rightarrow> None
         | Some (b, rest) \<Rightarrow> Some (g\<lparr>score1 := score1 g + 1, ball := b\<rparr>, rest))
      else Some (g, draws))"

text \<open>
  One pass of \<^verbatim>\<open>while (1)\<close>, lines 191 to 298, up to the state it leaves behind
  (the broadcast is modelled separately, the sleep is not modelled).
\<close>

definition tick ::
  "Client \<times> Client \<Rightarrow> netbuf option \<times> netbuf option \<Rightarrow> Game \<times> nat list
     \<Rightarrow> (Game \<times> nat list) option" where
  "tick clients rs gd =
     scoring (ball_physics (update_paddles (handle_inputs clients rs (fst gd))), snd gd)"

text \<open>Lines 179 to 187: the state in which the main loop starts.\<close>

definition init_game :: "Ball \<Rightarrow> nat list \<Rightarrow> (Game \<times> nat list) option" where
  "init_game uninit draws =
     (case reset_ball uninit 1 draws of
        None \<Rightarrow> None
      | Some (b, rest) \<Rightarrow>
          Some (\<lparr>p1 = \<lparr>pl_y = FIELD_HEIGHT div 2 - PADDLE_HEIGHT div 2, pl_input = NONE\<rparr>,
                 p2 = \<lparr>pl_y = FIELD_HEIGHT div 2 - PADDLE_HEIGHT div 2, pl_input = NONE\<rparr>,
                 ball = b, score1 = 0, score2 = 0\<rparr>, rest))"

text \<open>
  The states of the simulation: the initial one and every state a tick leaves, for
  any client table, any received buffers and any supply of random draws.
\<close>

inductive reachable :: "Game \<Rightarrow> bool" where
  reach_init: "init_game uninit draws = Some (g, rest) \<Longrightarrow> reachable g"
| reach_tick: "reachable g \<Longrightarrow> tick clients rs (g, draws) = Some (g', rest) \<Longrightarrow> reachable g'"

text \<open>The ball that the scoring test of a tick looks at (the state after line 262).\<close>

definition ball_before_scoring ::
  "Client \<times> Client \<Rightarrow> netbuf option \<times> netbuf option \<Rightarrow> Game \<Rightarrow> Ball" where
  "ball_before_scoring clients rs g =
     ball (ball_physics (update_paddles (handle_inputs clients rs g)))"

subsection \<open>The state broadcast\<close>

text \<open>
  Lines 276 to 282. \<^verbatim>\<open>snprintf\<close> is the C library's and is modelled from the C standard:
  \<^verbatim>\<open>%d\<close> prints a minus sign for negative numbers and the decimal digits; \<^verbatim>\<open>%.2f\<close>
  prints a minus sign for negative numbers, then the magnitude rounded to hundredths
  (a tie goes to the even neighbour) with two digits after the point; at most
  \<open>size - 1\<close> characters of the text are stored.
\<close>

definition digit_char :: "nat \<Rightarrow> char" where
  "digit_char d = char_of (48 + d)"

fun show_nat :: "nat \<Rightarrow> string" where
  "show_nat n = (if n < 10 then [digit_char n] else show_nat (n div 10) @ [digit_char (n mod 10)])"

declare show_nat.simps [simp del]

definition show_int :: "int \<Rightarrow> string" where
  "show_int i = (if i < 0 then CHR ''-'' # show_nat (nat (- i)) else show_nat (nat i))"

definition round_half_even :: "real \<Rightarrow> int" where
  "round_half_even x =
     (let f = \<lfloor>x\<rfloor>; r = x - of_int f
      in if r < 1 / 2 then f else if r > 1 / 2 then f + 1
         else if even f then f else f + 1)"

definition show_fixed2 :: "real \<Rightarrow> string" where
  "show_fixed2 x =
     (let h = nat (round_half_even (\<bar>x\<bar> * 100))
      in (if x < 0 then ''-'' else []) @ show_nat (h div 100) @ ''.'' @
         [digit_char (h div 10 mod 10), digit_char (h mod 10)])"

text \<open>The format up to the newline, and the whole format.\<close>

definition state_fields :: "Game \<Rightarrow> string" where
  "state_fields g =
     ''STATE:'' @ show_int (pl_y (p1 g)) @ '','' @ show_int (pl_y (p2 g)) @ '','' @
     show_fixed2 (b_x (ball g)) @ '','' @ show_fixed2 (b_y (ball g)) @ '','' @
     show_fixed2 (b_dx (ball g)) @ '','' @ show_fixed2 (b_dy (ball g)) @ '','' @
     show_int (score1 g) @ '','' @ show_int (score2 g) @ '','' @
     show_int (serve_timer (ball g))"

definition state_text :: "Game \<Rightarrow> string" where
  "state_text g = state_fields g @ [CHR 0x0A]"

text \<open>\<^verbatim>\<open>snprintf(state, n, ...)\<close>; the server calls it with \<open>n = 128\<close>.\<close>

definition snprintf_state :: "nat \<Rightarrow> Game \<Rightarrow> string" where
  "snprintf_state n g = take (n - 1) (state_text g)"

text \<open>What \<^verbatim>\<open>%.2f\<close> leaves of a value: the value rounded to hundredths.\<close>

definition two_decimals :: "real \<Rightarrow> real" where
  "two_decimals x =
     (if x < 0 then - 1 else 1) * real_of_int (round_half_even (\<bar>x\<bar> * 100)) / 100"

subsection \<open>The connection phase\<close>

text \<open>
  Lines 139 to 176. What \<^verbatim>\<open>netconn_accept\<close> and the following \<^verbatim>\<open>netconn_recv\<close>
  deliver is the input: a failed accept, or a connection handle with the buffer
  received on it (\<open>None\<close>: nothing received). What the server does to connections is
  the output: \<^verbatim>\<open>netconn_write\<close> of a text, or \<^verbatim>\<open>netconn_close\<close> followed by
  \<^verbatim>\<open>netconn_delete\<close>.
\<close>

datatype accept_event = AcceptFailed | Accepted nat "netbuf option"

datatype net_action = Write nat string | CloseDelete nat

text \<open>\<^verbatim>\<open>clients[0]\<close>, \<^verbatim>\<open>clients[1]\<close> and \<^verbatim>\<open>ready\<close>.\<close>

record Lobby =
  clients0 :: Client
  clients1 :: Client
  ready :: int

text \<open>\<^verbatim>\<open>Client clients[2] = {0}; int ready = 0;\<close>\<close>

definition no_clients :: Lobby where
  "no_clients = \<lparr>clients0 = \<lparr>conn = None, cl_id = 0\<rparr>,
                  clients1 = \<lparr>conn = None, cl_id = 0\<rparr>, ready = 0\<rparr>"

text \<open>
  Lines 146 to 157: \<^verbatim>\<open>buf\<close> starts as 32 zero bytes and receives at most 31 bytes of
  the payload, so as a C string it is that prefix.
\<close>

definition handshake_buf :: "netbuf option \<Rightarrow> string" where
  "handshake_buf r =
     (case r of
        None \<Rightarrow> []
      | Some nb \<Rightarrow> take (if nb_len nb > 31 then 31 else nb_len nb) (nb_data nb))"

text \<open>Lines 160 to 172: the decision on one accepted connection.\<close>

definition accept_client :: "nat \<Rightarrow> netbuf option \<Rightarrow> Lobby \<Rightarrow> Lobby \<times> net_action list" where
  "accept_client c r L =
     (let buf = handshake_buf r in
      if strncmp_eq buf ''HELLO:1'' 7 \<and> conn (clients0 L) = None then
        (L\<lparr>clients0 := \<lparr>conn = Some c, cl_id = 1\<rparr>, ready := ready L + 1\<rparr>,
         [Write c (''WELCOME 1'' @ [CHR 0x0A])])
      else if strncmp_eq buf ''HELLO:2'' 7 \<and> conn (clients1 L) = None then
        (L\<lparr>clients1 := \<lparr>conn = Some c, cl_id = 2\<rparr>, ready := ready L + 1\<rparr>,
         [Write c (''WELCOME 2'' @ [CHR 0x0A])])
      else (L, [CloseDelete c]))"

text \<open>
  The loop \<^verbatim>\<open>while (ready < 2)\<close> over the accept events that occur. It returns the
  client table, the actions taken in order, and the events it has not consumed; with
  the events used up and \<open>ready < 2\<close> the server is still waiting in the loop.
\<close>

fun wait_for_players ::
  "accept_event list \<Rightarrow> Lobby \<Rightarrow> Lobby \<times> net_action list \<times> accept_event list" where
  "wait_for_players [] L = (L, [], [])"
| "wait_for_players (e # es) L =
     (if ready L < 2 then
        (case e of
           AcceptFailed \<Rightarrow> wait_for_players es L
         | Accepted c r \<Rightarrow>
             (let step = accept_client c r L;
                  more = wait_for_players es (fst step)
              in (fst more, snd step @ fst (snd more), snd (snd more))))
      else (L, [], e # es))"

text \<open>
  The first seven bytes of what was received on a connection are the given text
  (nothing received, or fewer than seven bytes, never are).
\<close>

definition first_seven :: "netbuf option \<Rightarrow> string \<Rightarrow> bool" where
  "first_seven r lit =
     (case r of None \<Rightarrow> False | Some nb \<Rightarrow> 7 \<le> nb_len nb \<and> take 7 (nb_data nb) = lit)"

text \<open>What the connection loop keeps true of the client table.\<close>

definition lobby_inv :: "Lobby \<Rightarrow> bool" where
  "lobby_inv L =
     (ready L = (if conn (clients0 L) = None then 0 else 1) +
                (if conn (clients1 L) = None then 0 else 1) \<and>
      (conn (clients0 L) \<noteq> None \<longrightarrow> cl_id (clients0 L) = 1) \<and>
      (conn (clients1 L) \<noteq> None \<longrightarrow> cl_id (clients1 L) = 2))"

section \<open>The client (src/unnamed/part 001)\<close>

text \<open>
  The client's \<^verbatim>\<open>float\<close> and \<^verbatim>\<open>double\<close> values are reals, as on the server.
  \<^verbatim>\<open>GetTime()\<close> and \<^verbatim>\<open>GetFrameTime()\<close> belong to the graphics library: their
  results are parameters. \<^verbatim>\<open>sscanf\<close> belongs to the C library: \<open>process_game_state\<close>
  takes it as a parameter.
\<close>

definition SERVER_EXPECTED_MESSAGES :: int where "SERVER_EXPECTED_MESSAGES = 9"

record GameState =
  is_player1 :: int
  p1_y :: int
  p2_y :: int
  gs_score1 :: int
  gs_score2 :: int
  gs_serve_timer :: int

text \<open>The global \<^verbatim>\<open>predicted\<close>.\<close>

record PredictedBall =
  pred_x :: real
  pred_y :: real
  pred_dx :: real
  pred_dy :: real
  last_update :: real
  valid :: int

text \<open>
  The nine local variables of \<^verbatim>\<open>process_game_state\<close> that \<^verbatim>\<open>sscanf\<close> writes to
  (\<^verbatim>\<open>score1\<close>, \<^verbatim>\<open>score2\<close> are \<open>sn_score1\<close>, \<open>sn_score2\<close> here).
\<close>

record Snapshot =
  new_p1_y :: int
  new_p2_y :: int
  ball_x :: real
  ball_y :: real
  ball_dx :: real
  ball_dy :: real
  sn_score1 :: int
  sn_score2 :: int
  timer :: int

text \<open>
  Lines 210 to 241. \<open>scanf line\<close> is the result of the \<^verbatim>\<open>sscanf\<close> call: its return
  value and the contents of the nine locals after it; \<open>now\<close> is what \<^verbatim>\<open>GetTime()\<close>
  returns on line 234. The result is the return value, \<^verbatim>\<open>*state\<close> and \<^verbatim>\<open>predicted\<close>.
\<close>

definition process_game_state ::
  "(string \<Rightarrow> int \<times> Snapshot) \<Rightarrow> real \<Rightarrow> string \<Rightarrow> GameState \<times> PredictedBall
     \<Rightarrow> int \<times> GameState \<times> PredictedBall" where
  "process_game_state scanf now line sp =
     (let parsed = fst (scanf line); v = snd (scanf line) in
      if parsed = SERVER_EXPECTED_MESSAGES then
        (1,
         (fst sp)\<lparr>p1_y := new_p1_y v, p2_y := new_p2_y v, gs_score1 := sn_score1 v,
                  gs_score2 := sn_score2 v, gs_serve_timer := timer v\<rparr>,
         (snd sp)\<lparr>pred_x := ball_x v, pred_y := ball_y v, pred_dx := ball_dx v,
                  pred_dy := ball_dy v, last_update := now, valid := 1\<rparr>)
      else (0, fst sp, snd sp))"

text \<open>
  Lines 294 to 321: the prediction step of one frame; \<open>now\<close> is \<^verbatim>\<open>GetTime()\<close> at the
  top of the loop and \<open>dt\<close> is \<^verbatim>\<open>GetFrameTime()\<close>.
\<close>

definition predict_frame :: "real \<Rightarrow> real \<Rightarrow> PredictedBall \<Rightarrow> PredictedBall" where
  "predict_frame now dt p =
     (if valid p \<noteq> 0 \<and> now - last_update p < 1 then
        p\<lparr>pred_x := pred_x p + pred_dx p * dt * 60,
          pred_y := pred_y p + pred_dy p * dt * 60,
          last_update := now\<rparr>
      else p)"

text \<open>
  A run of frames, each given by its \<open>(now, dt)\<close>, in which \<^verbatim>\<open>recv\<close> delivers nothing
  (\<open>n \<le> 0\<close>, so lines 330 to 340 are skipped): only the prediction step touches
  \<^verbatim>\<open>predicted\<close>.
\<close>

fun run_frames :: "(real \<times> real) list \<Rightarrow> PredictedBall \<Rightarrow> PredictedBall" where
  "run_frames [] p = p"
| "run_frames (f # fs) p = run_frames fs (predict_frame (fst f) (snd f) p)"

subsection \<open>The C library's scanner, for the client's format\<close>

text \<open>
  Modelled from the C standard, not from the repository: \<^verbatim>\<open>sscanf\<close> with the format
  \<^verbatim>\<open>"STATE:%d,%d,%f,%f,%f,%f,%d,%d,%d"\<close>. A literal character must match the next
  input character; \<^verbatim>\<open>%d\<close> and \<^verbatim>\<open>%f\<close> skip white space and read an optional sign
  and decimal digits, \<^verbatim>\<open>%f\<close> also a decimal point and more digits. The exponent,
  hexadecimal, infinity and NaN forms that \<^verbatim>\<open>%f\<close> also accepts are not modelled,
  integers are unbounded, and a scan that ends before the first conversion counts 0
  conversions (the C function returns \<^verbatim>\<open>EOF\<close>; the caller only compares with 9).
\<close>

definition isspace :: "char \<Rightarrow> bool" where
  "isspace c = (c \<in> set [CHR '' '', CHR 0x09, CHR 0x0A, CHR 0x0B, CHR 0x0C, CHR 0x0D])"

definition isdigit :: "char \<Rightarrow> bool" where
  "isdigit c = (48 \<le> (of_char c :: nat) \<and> (of_char c :: nat) \<le> 57)"

definition digit_value :: "char \<Rightarrow> nat" where
  "digit_value c = of_char c - 48"

definition digits_value :: "string \<Rightarrow> nat" where
  "digits_value ds = foldl (\<lambda>n c. 10 * n + digit_value c) 0 ds"

definition scan_sign :: "string \<Rightarrow> bool \<times> string" where
  "scan_sign s =
     (case s of
        [] \<Rightarrow> (False, [])
      | c # t \<Rightarrow> if c = CHR ''-'' then (True, t)
                 else if c = CHR ''+'' then (False, t) else (False, s))"

definition scan_d :: "string \<Rightarrow> (int \<times> string) option" where
  "scan_d s0 =
     (let s = scan_sign (dropWhile isspace s0);
          ds = takeWhile isdigit (snd s)
      in if ds = [] then None
         else Some (if fst s then - int (digits_value ds) else int (digits_value ds),
                    dropWhile isdigit (snd s)))"

definition scan_fraction :: "string \<Rightarrow> string \<times> string" where
  "scan_fraction s =
     (case s of
        [] \<Rightarrow> ([], [])
      | c # t \<Rightarrow> if c = CHR ''.'' then (takeWhile isdigit t, dropWhile isdigit t) else ([], s))"

definition scan_f :: "string \<Rightarrow> (real \<times> string) option" where
  "scan_f s0 =
     (let s = scan_sign (dropWhile isspace s0);
          ip = takeWhile isdigit (snd s);
          fr = scan_fraction (dropWhile isdigit (snd s));
          m = real (digits_value ip) + real (digits_value (fst fr)) / 10 ^ length (fst fr)
      in if ip = [] \<and> fst fr = [] then None
         else Some (if fst s then - m else m, snd fr))"

text \<open>A format: literal characters and conversions, each conversion with the local it
  stores to.\<close>

datatype directive =
    Lit char
  | Conv_d "int \<Rightarrow> Snapshot \<Rightarrow> Snapshot"
  | Conv_f "real \<Rightarrow> Snapshot \<Rightarrow> Snapshot"

text \<open>The scan stops at the first directive that fails; the count of conversions so
  far and the locals as they then are remain.\<close>

fun scanf_run :: "directive list \<Rightarrow> string \<Rightarrow> int \<times> Snapshot \<Rightarrow> int \<times> Snapshot" where
  "scanf_run [] s acc = acc"
| "scanf_run (Lit c # ds) s acc =
     (case s of [] \<Rightarrow> acc | a # t \<Rightarrow> if a = c then scanf_run ds t acc else acc)"
| "scanf_run (Conv_d store # ds) s acc =
     (case scan_d s of
        None \<Rightarrow> acc
      | Some (i, t) \<Rightarrow> scanf_run ds t (fst acc + 1, store i (snd acc)))"
| "scanf_run (Conv_f store # ds) s acc =
     (case scan_f s of
        None \<Rightarrow> acc
      | Some (x, t) \<Rightarrow> scanf_run ds t (fst acc + 1, store x (snd acc)))"

definition state_format :: "directive list" where
  "state_format =
     map Lit ''STATE:'' @
     [Conv_d (\<lambda>i v. v\<lparr>new_p1_y := i\<rparr>), Lit CHR '','',
      Conv_d (\<lambda>i v. v\<lparr>new_p2_y := i\<rparr>), Lit CHR '','',
      Conv_f (\<lambda>x v. v\<lparr>ball_x := x\<rparr>), Lit CHR '','',
      Conv_f (\<lambda>x v. v\<lparr>ball_y := x\<rparr>), Lit CHR '','',
      Conv_f (\<lambda>x v. v\<lparr>ball_dx := x\<rparr>), Lit CHR '','',
      Conv_f (\<lambda>x v. v\<lparr>ball_dy := x\<rparr>), Lit CHR '','',
      Conv_d (\<lambda>i v. v\<lparr>sn_score1 := i\<rparr>), Lit CHR '','',
      Conv_d (\<lambda>i v. v\<lparr>sn_score2 := i\<rparr>), Lit CHR '','',
      Conv_d (\<lambda>i v. v\<lparr>timer := i\<rparr>)]"

text \<open>The call on line 217; \<open>locals\<close> is what the nine uninitialised locals hold.\<close>

definition sscanf_state :: "Snapshot \<Rightarrow> string \<Rightarrow> int \<times> Snapshot" where
  "sscanf_state locals line = scanf_run state_format (cstr line) (0, locals)"

text \<open>
  Lines 335 to 339 of the client: the first line of the receive buffer, without its
  newline, and the buffer that remains; \<open>None\<close> when the buffer holds no newline.
\<close>

definition next_line :: "string \<Rightarrow> (string \<times> string) option" where
  "next_line buffer =
     (let s = cstr buffer in
      if CHR 0x0A \<in> set s
      then Some (takeWhile (\<lambda>c. c \<noteq> CHR 0x0A) s, tl (dropWhile (\<lambda>c. c \<noteq> CHR 0x0A) s))
      else None)"

text \<open>Two predicates on texts used below: a run of digits ends where the text
  begins; the text holds neither a NUL nor a newline.\<close>

definition no_digit_next :: "string \<Rightarrow> bool" where
  "no_digit_next s = (case s of [] \<Rightarrow> True | c # _ \<Rightarrow> \<not> isdigit c)"

definition plain :: "string \<Rightarrow> bool" where
  "plain s = (CHR 0x00 \<notin> set s \<and> CHR 0x0A \<notin> set s)"

section \<open>Example data\<close>

text \<open>Some content for the uninitialised \<^verbatim>\<open>Ball ball;\<close> of line 183.\<close>

definition uninit_ball :: Ball where
  "uninit_ball = \<lparr>b_x = 0, b_y = 0, b_dx = 0, b_dy = 0, serve_timer = 0, speed = 0\<rparr>"

text \<open>The state in which the main loop starts when the first draw of \<^verbatim>\<open>rand()\<close> is 0.\<close>

definition start_game :: Game where
  "start_game =
     \<lparr>p1 = \<lparr>pl_y = 10, pl_input = NONE\<rparr>, p2 = \<lparr>pl_y = 10, pl_input = NONE\<rparr>,
      ball = \<lparr>b_x = 40, b_y = 12, b_dx = sqrt 3 / 4, b_dy = - (1 / 4),
               serve_timer = 180, speed = 1 / 2\<rparr>,
      score1 = 0, score2 = 0\<rparr>"

text \<open>The client table once both players are connected.\<close>

definition both_clients :: "Client \<times> Client" where
  "both_clients = (\<lparr>conn = Some 1, cl_id = 1\<rparr>, \<lparr>conn = Some 3, cl_id = 2\<rparr>)"

text \<open>A buffer holding the client's message for the up key.\<close>

definition up_message :: netbuf where
  "up_message = \<lparr>nb_data = ''INPUT:UP'' @ [CHR 0x0A], nb_len = 9\<rparr>"

text \<open>A ball half a unit short of x = 81, moving right, with the countdown over.\<close>

definition exit_right_game :: Game where
  "exit_right_game =
     \<lparr>p1 = \<lparr>pl_y = 10, pl_input = NONE\<rparr>, p2 = \<lparr>pl_y = 3, pl_input = NONE\<rparr>,
      ball = \<lparr>b_x = 161 / 2, b_y = 12, b_dx = 1 / 2, b_dy = 1 / 10,
               serve_timer = 0, speed = 1 / 2\<rparr>,
      score1 = 0, score2 = 0\<rparr>"

text \<open>The ball after a serve reset for player 2 whose accepted draw is 0.\<close>

definition served_ball :: Ball where
  "served_ball = \<lparr>b_x = 40, b_y = 12, b_dx = - (sqrt 3 / 4), b_dy = - (1 / 4),
                  serve_timer = 180, speed = 1 / 2\<rparr>"

text \<open>The start state with the serve countdown run down to zero.\<close>

definition serving_game :: Game where
  "serving_game = start_game\<lparr>ball := (ball start_game)\<lparr>serve_timer := 0\<rparr>\<rparr>"

text \<open>A ball a quarter unit from the left edge, moving left, away from paddle 1.\<close>

definition exit_left_game :: Game where
  "exit_left_game =
     \<lparr>p1 = \<lparr>pl_y = 10, pl_input = NONE\<rparr>, p2 = \<lparr>pl_y = 3, pl_input = NONE\<rparr>,
      ball = \<lparr>b_x = 1 / 4, b_y = 2, b_dx = - (1 / 2), b_dy = 1 / 10,
               serve_timer = 0, speed = 1 / 2\<rparr>,
      score1 = 2, score2 = 5\<rparr>"

text \<open>
  The invariant of the ball that the serve countdown rests on: while the countdown
  runs the ball lies at the centre, and the speed field holds the initial speed.
\<close>

definition serve_inv :: "Ball \<Rightarrow> bool" where
  "serve_inv b =
     (0 \<le> serve_timer b \<and> serve_timer b \<le> SERVE_TIME \<and> speed b = INITIAL_BALL_SPEED \<and>
      (0 < serve_timer b \<longrightarrow> b_x b = 40 \<and> b_y b = 12))"

text \<open>
  The invariant of the ball in flight: it is inside the field horizontally, no velocity
  component exceeds one half, and a ball beyond the top or bottom edge is on its way back.
\<close>

definition flight_inv :: "Ball \<Rightarrow> bool" where
  "flight_inv b =
     (0 \<le> b_x b \<and> b_x b \<le> 80 \<and> \<bar>b_dx b\<bar> \<le> 1 / 2 \<and> \<bar>b_dy b\<bar> \<le> 1 / 2 \<and>
      (b_y b < 0 \<longrightarrow> 0 \<le> b_y b + b_dy b) \<and>
      (23 < b_y b \<longrightarrow> b_y b + b_dy b \<le> 23))"

text \<open>The handshake messages of the two players, a claim of which only the first six
  bytes arrived (the seventh lies in the memory behind them), and a sequence of accept
  events in which player 1 is claimed twice before player 2 is claimed.\<close>

definition hello1 :: netbuf where
  "hello1 = \<lparr>nb_data = ''HELLO:1'' @ [CHR 0x0A], nb_len = 8\<rparr>"

definition hello2 :: netbuf where
  "hello2 = \<lparr>nb_data = ''HELLO:2'' @ [CHR 0x0A], nb_len = 8\<rparr>"

definition cut_hello :: netbuf where
  "cut_hello = \<lparr>nb_data = ''HELLO:2'' @ [CHR 0x0A], nb_len = 6\<rparr>"

definition handshake_events :: "accept_event list" where
  "handshake_events =
     [Accepted 1 (Some hello1), AcceptFailed, Accepted 2 (Some hello1),
      Accepted 5 (Some cut_hello), Accepted 6 None,
      Accepted 3 (Some hello2), Accepted 4 (Some hello1)]"

text \<open>A claim that names no slot of the game: player 13.\<close>

definition hello13 :: netbuf where
  "hello13 = \<lparr>nb_data = ''HELLO:13'' @ [CHR 0x0A], nb_len = 9\<rparr>"






text \<open>The client before any snapshot, a snapshot line, a line cut short, and the
  prediction right after that snapshot was processed at time 0.\<close>

definition zero_snapshot :: Snapshot where
  "zero_snapshot = \<lparr>new_p1_y = 0, new_p2_y = 0, ball_x = 0, ball_y = 0, ball_dx = 0,
     ball_dy = 0, sn_score1 = 0, sn_score2 = 0, timer = 0\<rparr>"

definition new_client :: "GameState \<times> PredictedBall" where
  "new_client =
     (\<lparr>is_player1 = 1, p1_y = 0, p2_y = 0, gs_score1 = 0, gs_score2 = 0, gs_serve_timer = 0\<rparr>,
      \<lparr>pred_x = 0, pred_y = 0, pred_dx = 0, pred_dy = 0, last_update = 0, valid = 0\<rparr>)"

definition snapshot_line :: string where
  "snapshot_line = ''STATE:10,12,40.00,12.00,0.50,0.10,0,0,0''"

definition partial_line :: string where
  "partial_line = ''STATE:11,12,41.50,-12.5''"

definition synced_state :: GameState where
  "synced_state = \<lparr>is_player1 = 1, p1_y = 10, p2_y = 12, gs_score1 = 0, gs_score2 = 0,
                    gs_serve_timer = 0\<rparr>"

definition synced_ball :: PredictedBall where
  "synced_ball = \<lparr>pred_x = 40, pred_y = 12, pred_dx = 1 / 2, pred_dy = 1 / 10,
                   last_update = 0, valid = 1\<rparr>"

text \<open>The first \<open>n\<close> frames of a client running at 60 frames per second from time 0.\<close>

definition frames_60fps :: "nat \<Rightarrow> (real \<times> real) list" where
  "frames_60fps n = map (\<lambda>k. (real k / 60, 1 / 60)) [1..<Suc n]"

text \<open>A state whose ball fields have more than two decimals.\<close>

definition rounding_game :: Game where
  "rounding_game =
     \<lparr>p1 = \<lparr>pl_y = 7, pl_input = UP\<rparr>, p2 = \<lparr>pl_y = 15, pl_input = NONE\<rparr>,
      ball = \<lparr>b_x = 40126 / 1000, b_y = 11994 / 1000, b_dx = - (4330127 / 10000000),
               b_dy = 1 / 4, serve_timer = 0, speed = 1 / 2\<rparr>,
      score1 = 3, score2 = 11\<rparr>"

section \<open>Properties of the server\<close>

lemmas pong_consts =
  FPS_def FIELD_WIDTH_def FIELD_HEIGHT_def PADDLE_HEIGHT_def PADDLE_WIDTH_def
  PADDLE_OFFSET_X_def SERVE_TIME_def INITIAL_BALL_SPEED_def MAX_BALL_SPEED_def

subsection \<open>The serve reset\<close>

lemma serve_angle_bounds: "- (pi / 6) \<le> serve_angle r \<and> serve_angle r < pi / 6"
proof -
  have k: "real (r mod 1000) < 1000" by simp
  have "0 \<le> real (r mod 1000) / 1000 * (pi / 3)" by simp
  moreover have "real (r mod 1000) / 1000 * (pi / 3) < 1 * (pi / 3)"
    using k by (intro mult_strict_right_mono) simp_all
  ultimately show ?thesis by (simp add: serve_angle_def)
qed

lemma serve_angle_0: "serve_angle 0 = - (pi / 6)"
  by (simp add: serve_angle_def)

lemma serve_angle_500: "serve_angle 500 = 0"
  by (simp add: serve_angle_def)

lemma draw_angle_Some:
  "draw_angle ds = Some (a, rest) \<Longrightarrow>
   \<exists>pre r. ds = pre @ r # rest \<and> (\<forall>q\<in>set pre. \<bar>sin (serve_angle q)\<bar> < 3 / 10) \<and>
           a = serve_angle r \<and> 3 / 10 \<le> \<bar>sin a\<bar>"
proof (induction ds)
  case Nil
  then show ?case by simp
next
  case (Cons d ds)
  show ?case
  proof (cases "\<bar>sin (serve_angle d)\<bar> < 3 / 10")
    case True
    with Cons.prems have "draw_angle ds = Some (a, rest)" by simp
    from Cons.IH[OF this] obtain pre r where
      "ds = pre @ r # rest" "\<forall>q\<in>set pre. \<bar>sin (serve_angle q)\<bar> < 3 / 10"
      "a = serve_angle r" "3 / 10 \<le> \<bar>sin a\<bar>" by blast
    with True have "d # ds = (d # pre) @ r # rest \<and>
        (\<forall>q\<in>set (d # pre). \<bar>sin (serve_angle q)\<bar> < 3 / 10) \<and>
        a = serve_angle r \<and> 3 / 10 \<le> \<bar>sin a\<bar>" by simp
    then show ?thesis by blast
  next
    case False
    with Cons.prems have "a = serve_angle d" "rest = ds" by simp_all
    with False have "d # ds = [] @ d # rest \<and>
        (\<forall>q\<in>set []. \<bar>sin (serve_angle q)\<bar> < 3 / 10) \<and>
        a = serve_angle d \<and> 3 / 10 \<le> \<bar>sin a\<bar>" by simp
    then show ?thesis by blast
  qed
qed

lemma draw_angle_total:
  "(draw_angle ds \<noteq> None) = (\<exists>r\<in>set ds. 3 / 10 \<le> \<bar>sin (serve_angle r)\<bar>)"
  by (induction ds) (auto simp: Let_def)

lemma reset_ball_Some:
  assumes "reset_ball b sp ds = Some (b', rest)"
  shows "\<exists>a. draw_angle ds = Some (a, rest) \<and>
             b_x b' = 40 \<and> b_y b' = 12 \<and>
             b_dx b' = (if sp = 1 then 1 else - 1) * INITIAL_BALL_SPEED * cos a \<and>
             b_dy b' = INITIAL_BALL_SPEED * sin a \<and>
             speed b' = INITIAL_BALL_SPEED \<and> serve_timer b' = SERVE_TIME"
  using assms
  by (auto simp: reset_ball_def Let_def FIELD_WIDTH_def FIELD_HEIGHT_def split: option.splits)

lemma reset_ball_total:
  "(reset_ball b sp ds \<noteq> None) = (\<exists>r\<in>set ds. 3 / 10 \<le> \<bar>sin (serve_angle r)\<bar>)"
  using draw_angle_total[of ds]
  by (auto simp: reset_ball_def Let_def split: option.splits)

lemma reset_ball_shape:
  assumes "reset_ball b sp ds = Some (b', rest)"
  shows "\<exists>pre r. ds = pre @ r # rest \<and>
           (\<forall>q\<in>set pre. \<bar>sin (serve_angle q)\<bar> < 3 / 10) \<and>
           \<bar>serve_angle r\<bar> \<le> pi / 6 \<and> 3 / 10 \<le> \<bar>sin (serve_angle r)\<bar> \<and>
           b_x b' = real_of_int (FIELD_WIDTH div 2) \<and> b_x b' = 40 \<and>
           b_y b' = real_of_int (FIELD_HEIGHT div 2) \<and> b_y b' = 12 \<and>
           b_dx b' = (if sp = 1 then 1 else - 1) * INITIAL_BALL_SPEED * cos (serve_angle r) \<and>
           b_dy b' = INITIAL_BALL_SPEED * sin (serve_angle r) \<and>
           (if sp = 1 then 0 < b_dx b' else b_dx b' < 0) \<and>
           speed b' = INITIAL_BALL_SPEED \<and>
           serve_timer b' = SERVE_TIME \<and> SERVE_TIME = 180"
proof -
  from reset_ball_Some[OF assms] obtain a where
    a: "draw_angle ds = Some (a, rest)" and
    f: "b_x b' = 40" "b_y b' = 12"
       "b_dx b' = (if sp = 1 then 1 else - 1) * INITIAL_BALL_SPEED * cos a"
       "b_dy b' = INITIAL_BALL_SPEED * sin a"
       "speed b' = INITIAL_BALL_SPEED" "serve_timer b' = SERVE_TIME"
    by blast
  from draw_angle_Some[OF a] obtain pre r where
    d: "ds = pre @ r # rest" "\<forall>q\<in>set pre. \<bar>sin (serve_angle q)\<bar> < 3 / 10"
       "a = serve_angle r" "3 / 10 \<le> \<bar>sin a\<bar>" by blast
  have bnd: "\<bar>serve_angle r\<bar> \<le> pi / 6" using serve_angle_bounds[of r] by linarith
  have "- (pi / 2) < serve_angle r" "serve_angle r < pi / 2"
    using serve_angle_bounds[of r] pi_gt_zero by linarith+
  then have c: "0 < cos (serve_angle r)" by (rule cos_gt_zero_pi)
  have sgn: "if sp = 1 then 0 < b_dx b' else b_dx b' < 0"
  proof (cases "sp = 1")
    case True
    then show ?thesis using c f(3) d(3) by (simp add: INITIAL_BALL_SPEED_def)
  next
    case False
    then show ?thesis using c f(3) d(3) by (simp add: INITIAL_BALL_SPEED_def)
  qed
  show ?thesis
    using d f bnd sgn
    by (intro exI[of _ pre] exI[of _ r]) (simp add: pong_consts)
qed

lemma reset_ball_serve:
  assumes "reset_ball b sp ds = Some (b', rest)"
  shows "b_x b' = 40 \<and> b_y b' = 12 \<and> serve_timer b' = SERVE_TIME \<and>
         (if sp = 1 then 0 < b_dx b' else b_dx b' < 0)"
  using reset_ball_shape[OF assms] by blast

lemma reset_ball_example:
  "reset_ball uninit_ball 2 [500, 0] =
     Some (\<lparr>b_x = 40, b_y = 12, b_dx = - (sqrt 3 / 4), b_dy = - (1 / 4),
            serve_timer = 180, speed = 1 / 2\<rparr>, [])"
  by (simp add: reset_ball_def serve_angle_0 serve_angle_500 sin_30 cos_30 uninit_ball_def
      pong_consts)

text \<open>
  C5. Whenever \<^verbatim>\<open>reset_ball\<close> returns, it has thrown away every draw whose angle is
  too flat (\<open>\<bar>sin angle\<bar> < 0.3\<close>) and taken the first one that is not; that angle lies
  within 30 degrees of the horizontal and has \<open>\<bar>sin angle\<bar> \<ge> 0.3\<close>; the ball is at
  the centre of the field, (40, 12); its velocity is \<open>speed * cos angle\<close> horizontally,
  positive when player 1 serves and negative otherwise, and \<open>speed * sin angle\<close>
  vertically; the speed is the initial speed and the serve countdown is
  \<^verbatim>\<open>SERVE_TIME\<close> = 180 ticks. It returns as soon as the draws hold one acceptable
  angle. (Real-number model of the float arithmetic.)
\<close>

theorem serve_reset:
  "((\<exists>r\<in>set ds. 3 / 10 \<le> \<bar>sin (serve_angle r)\<bar>) \<longrightarrow>
      (\<exists>b' rest. reset_ball b sp ds = Some (b', rest))) \<and>
   (\<forall>b' rest. reset_ball b sp ds = Some (b', rest) \<longrightarrow>
      (\<exists>pre r. ds = pre @ r # rest \<and>
           (\<forall>q\<in>set pre. \<bar>sin (serve_angle q)\<bar> < 3 / 10) \<and>
           \<bar>serve_angle r\<bar> \<le> pi / 6 \<and> 3 / 10 \<le> \<bar>sin (serve_angle r)\<bar> \<and>
           b_x b' = real_of_int (FIELD_WIDTH div 2) \<and> b_x b' = 40 \<and>
           b_y b' = real_of_int (FIELD_HEIGHT div 2) \<and> b_y b' = 12 \<and>
           b_dx b' = (if sp = 1 then 1 else - 1) * INITIAL_BALL_SPEED * cos (serve_angle r) \<and>
           b_dy b' = INITIAL_BALL_SPEED * sin (serve_angle r) \<and>
           (if sp = 1 then 0 < b_dx b' else b_dx b' < 0) \<and>
           speed b' = INITIAL_BALL_SPEED \<and>
           serve_timer b' = SERVE_TIME \<and> SERVE_TIME = 180))"
proof (intro conjI allI impI)
  assume "\<exists>r\<in>set ds. 3 / 10 \<le> \<bar>sin (serve_angle r)\<bar>"
  then have "reset_ball b sp ds \<noteq> None" by (simp only: reset_ball_total)
  then obtain v where "reset_ball b sp ds = Some v" by blast
  then have "reset_ball b sp ds = Some (fst v, snd v)" by simp
  then show "\<exists>b' rest. reset_ball b sp ds = Some (b', rest)" by blast
next
  fix b' rest
  assume "reset_ball b sp ds = Some (b', rest)"
  then show "\<exists>pre r. ds = pre @ r # rest \<and>
           (\<forall>q\<in>set pre. \<bar>sin (serve_angle q)\<bar> < 3 / 10) \<and>
           \<bar>serve_angle r\<bar> \<le> pi / 6 \<and> 3 / 10 \<le> \<bar>sin (serve_angle r)\<bar> \<and>
           b_x b' = real_of_int (FIELD_WIDTH div 2) \<and> b_x b' = 40 \<and>
           b_y b' = real_of_int (FIELD_HEIGHT div 2) \<and> b_y b' = 12 \<and>
           b_dx b' = (if sp = 1 then 1 else - 1) * INITIAL_BALL_SPEED * cos (serve_angle r) \<and>
           b_dy b' = INITIAL_BALL_SPEED * sin (serve_angle r) \<and>
           (if sp = 1 then 0 < b_dx b' else b_dx b' < 0) \<and>
           speed b' = INITIAL_BALL_SPEED \<and>
           serve_timer b' = SERVE_TIME \<and> SERVE_TIME = 180"
    by (rule reset_ball_shape)
qed

theorem serve_reset_witness:
  "reset_ball uninit_ball 2 [500, 0] = Some (served_ball, []) \<and>
   (\<exists>pre r. [500, 0] = pre @ r # [] \<and>
      (\<forall>q\<in>set pre. \<bar>sin (serve_angle q)\<bar> < 3 / 10) \<and>
      \<bar>serve_angle r\<bar> \<le> pi / 6 \<and> 3 / 10 \<le> \<bar>sin (serve_angle r)\<bar> \<and>
      b_dx served_ball = - 1 * INITIAL_BALL_SPEED * cos (serve_angle r) \<and>
      b_dy served_ball = INITIAL_BALL_SPEED * sin (serve_angle r)) \<and>
   b_x served_ball = 40 \<and> b_y served_ball = 12 \<and> b_dx served_ball < 0 \<and>
   speed served_ball = INITIAL_BALL_SPEED \<and> serve_timer served_ball = 180"
proof -
  have e: "reset_ball uninit_ball 2 [500, 0] = Some (served_ball, [])"
    by (simp add: reset_ball_example served_ball_def)
  from serve_reset[of "[500, 0]" uninit_ball 2] e
  have "\<exists>pre r. [500, 0] = pre @ r # [] \<and>
           (\<forall>q\<in>set pre. \<bar>sin (serve_angle q)\<bar> < 3 / 10) \<and>
           \<bar>serve_angle r\<bar> \<le> pi / 6 \<and> 3 / 10 \<le> \<bar>sin (serve_angle r)\<bar> \<and>
           b_x served_ball = real_of_int (FIELD_WIDTH div 2) \<and> b_x served_ball = 40 \<and>
           b_y served_ball = real_of_int (FIELD_HEIGHT div 2) \<and> b_y served_ball = 12 \<and>
           b_dx served_ball =
             (if (2::int) = 1 then 1 else - 1) * INITIAL_BALL_SPEED * cos (serve_angle r) \<and>
           b_dy served_ball = INITIAL_BALL_SPEED * sin (serve_angle r) \<and>
           (if (2::int) = 1 then 0 < b_dx served_ball else b_dx served_ball < 0) \<and>
           speed served_ball = INITIAL_BALL_SPEED \<and>
           serve_timer served_ball = SERVE_TIME \<and> SERVE_TIME = 180"
    by blast
  then obtain pre r where
    "[500, 0] = pre @ r # []" "\<forall>q\<in>set pre. \<bar>sin (serve_angle q)\<bar> < 3 / 10"
    "\<bar>serve_angle r\<bar> \<le> pi / 6" "3 / 10 \<le> \<bar>sin (serve_angle r)\<bar>"
    "b_dx served_ball = - 1 * INITIAL_BALL_SPEED * cos (serve_angle r)"
    "b_dy served_ball = INITIAL_BALL_SPEED * sin (serve_angle r)"
    "b_x served_ball = 40" "b_y served_ball = 12" "b_dx served_ball < 0"
    "speed served_ball = INITIAL_BALL_SPEED" "serve_timer served_ball = 180"
    by auto
  with e show ?thesis by blast
qed

subsection \<open>What a tick keeps and what it changes\<close>

lemma clamp_paddle_bounds:
  "0 \<le> pl_y (clamp_paddle p) \<and> pl_y (clamp_paddle p) \<le> FIELD_HEIGHT - PADDLE_HEIGHT"
  by (simp add: clamp_paddle_def Let_def pong_consts)

lemma scoring_players:
  "scoring (g, ds) = Some (g', rest) \<Longrightarrow> p1 g' = p1 g \<and> p2 g' = p2 g"
  by (auto simp: scoring_def Let_def split: if_splits option.splits)

lemma ball_physics_players: "p1 (ball_physics g) = p1 g \<and> p2 (ball_physics g) = p2 g"
  by (simp add: ball_physics_def)

lemma tick_players:
  assumes "tick cs rs gd = Some (g', rest)"
  shows "p1 g' = clamp_paddle (move_paddle (p1 (handle_inputs cs rs (fst gd))))"
    and "p2 g' = clamp_paddle (move_paddle (p2 (handle_inputs cs rs (fst gd))))"
  using assms
    scoring_players[of "ball_physics (update_paddles (handle_inputs cs rs (fst gd)))"
      "snd gd" g' rest]
  by (simp_all add: tick_def ball_physics_players update_paddles_def)

lemma handle_inputs_keeps:
  "ball (handle_inputs cs rs g) = ball g \<and> score1 (handle_inputs cs rs g) = score1 g \<and>
   score2 (handle_inputs cs rs g) = score2 g"
  by (simp add: handle_inputs_def Let_def)

lemma update_paddles_keeps:
  "ball (update_paddles g) = ball g \<and> score1 (update_paddles g) = score1 g \<and>
   score2 (update_paddles g) = score2 g"
  by (simp add: update_paddles_def)

lemma bounce_edges_keeps:
  "b_x (bounce_edges b) = b_x b \<and> b_y (bounce_edges b) = b_y b \<and>
   b_dx (bounce_edges b) = b_dx b \<and> \<bar>b_dy (bounce_edges b)\<bar> = \<bar>b_dy b\<bar> \<and>
   serve_timer (bounce_edges b) = serve_timer b \<and> speed (bounce_edges b) = speed b"
  by (simp add: bounce_edges_def)

lemma collide_p1_keeps:
  "b_x (collide_p1 p b) = b_x b \<and> b_y (collide_p1 p b) = b_y b \<and>
   \<bar>b_dx (collide_p1 p b)\<bar> = \<bar>b_dx b\<bar> \<and> b_dy (collide_p1 p b) = b_dy b \<and>
   serve_timer (collide_p1 p b) = serve_timer b \<and> speed (collide_p1 p b) = speed b"
  by (simp add: collide_p1_def)

lemma collide_p2_keeps:
  "b_x (collide_p2 p b) = b_x b \<and> b_y (collide_p2 p b) = b_y b \<and>
   \<bar>b_dx (collide_p2 p b)\<bar> = \<bar>b_dx b\<bar> \<and> b_dy (collide_p2 p b) = b_dy b \<and>
   serve_timer (collide_p2 p b) = serve_timer b \<and> speed (collide_p2 p b) = speed b"
  by (simp add: collide_p2_def)

lemma ball_before_scoring_keeps:
  "b_x (ball_before_scoring cs rs g) = b_x (move_ball (ball g)) \<and>
   b_y (ball_before_scoring cs rs g) = b_y (move_ball (ball g)) \<and>
   serve_timer (ball_before_scoring cs rs g) = serve_timer (move_ball (ball g)) \<and>
   speed (ball_before_scoring cs rs g) = speed (ball g)"
  by (simp add: ball_before_scoring_def ball_physics_def collide_p1_keeps collide_p2_keeps
      bounce_edges_keeps update_paddles_keeps handle_inputs_keeps move_ball_def)

lemma ball_physics_scores:
  "score1 (ball_physics g) = score1 g \<and> score2 (ball_physics g) = score2 g"
  by (simp add: ball_physics_def)

lemma tick_cases:
  assumes "tick cs rs (g, ds) = Some (g', rest)"
  shows "(b_x (move_ball (ball g)) < 0 \<and> score1 g' = score1 g \<and> score2 g' = score2 g + 1 \<and>
          reset_ball (ball_before_scoring cs rs g) 1 ds = Some (ball g', rest)) \<or>
         (0 \<le> b_x (move_ball (ball g)) \<and> real_of_int FIELD_WIDTH < b_x (move_ball (ball g)) \<and>
          score1 g' = score1 g + 1 \<and> score2 g' = score2 g \<and>
          reset_ball (ball_before_scoring cs rs g) 2 ds = Some (ball g', rest)) \<or>
         (0 \<le> b_x (move_ball (ball g)) \<and> b_x (move_ball (ball g)) \<le> real_of_int FIELD_WIDTH \<and>
          score1 g' = score1 g \<and> score2 g' = score2 g \<and>
          ball g' = ball_before_scoring cs rs g \<and> rest = ds)"
proof -
  let ?h = "ball_physics (update_paddles (handle_inputs cs rs g))"
  have sc: "scoring (?h, ds) = Some (g', rest)" using assms by (simp add: tick_def)
  have x: "b_x (ball ?h) = b_x (move_ball (ball g))"
    using ball_before_scoring_keeps[of cs rs g] by (simp add: ball_before_scoring_def)
  have s: "score1 ?h = score1 g" "score2 ?h = score2 g"
    by (simp_all add: ball_physics_scores update_paddles_keeps handle_inputs_keeps)
  show ?thesis
    using sc x s
    by (auto simp: scoring_def Let_def ball_before_scoring_def split: if_splits option.splits)
qed

lemmas tick_defs = tick_def scoring_def ball_physics_def update_paddles_def handle_inputs_def
  recv_input_def move_paddle_def clamp_paddle_def move_ball_def bounce_edges_def
  collide_p1_def collide_p2_def parse_input_line_def strncmp_eq_def cstr_def

lemma init_start: "init_game uninit_ball [0] = Some (start_game, [])"
  by (simp add: init_game_def reset_ball_def serve_angle_0 sin_30 cos_30 uninit_ball_def
      start_game_def pong_consts)

lemma reachable_start: "reachable start_game"
  using init_start by (rule reach_init)

lemma tick_start:
  "tick both_clients (Some up_message, None) (start_game, []) =
     Some (start_game\<lparr>p1 := \<lparr>pl_y = 9, pl_input = UP\<rparr>,
                      ball := (ball start_game)\<lparr>serve_timer := 179\<rparr>\<rparr>, [])"
  by (simp add: tick_defs start_game_def both_clients_def up_message_def pong_consts Let_def)

lemma tick_exit_right:
  "tick both_clients (None, None) (exit_right_game, [0]) =
     Some (exit_right_game\<lparr>score1 := 1, ball := served_ball\<rparr>, [])"
  by (simp add: tick_defs exit_right_game_def both_clients_def pong_consts Let_def
      reset_ball_def serve_angle_0 sin_30 cos_30 served_ball_def)

subsection \<open>Paddles\<close>

lemma tick_paddles_in_field:
  assumes "tick cs rs gd = Some (g', rest)"
  shows "0 \<le> pl_y (p1 g') \<and> pl_y (p1 g') \<le> FIELD_HEIGHT - PADDLE_HEIGHT \<and>
         0 \<le> pl_y (p2 g') \<and> pl_y (p2 g') \<le> FIELD_HEIGHT - PADDLE_HEIGHT"
  by (simp add: tick_players[OF assms] clamp_paddle_bounds)

lemma init_paddles_in_field:
  assumes "init_game u ds = Some (g, rest)"
  shows "0 \<le> pl_y (p1 g) \<and> pl_y (p1 g) \<le> FIELD_HEIGHT - PADDLE_HEIGHT \<and>
         0 \<le> pl_y (p2 g) \<and> pl_y (p2 g) \<le> FIELD_HEIGHT - PADDLE_HEIGHT"
  using assms by (auto simp: init_game_def pong_consts split: option.splits)

lemma reachable_paddles_in_field:
  "reachable g \<Longrightarrow>
     0 \<le> pl_y (p1 g) \<and> pl_y (p1 g) \<le> FIELD_HEIGHT - PADDLE_HEIGHT \<and>
     0 \<le> pl_y (p2 g) \<and> pl_y (p2 g) \<le> FIELD_HEIGHT - PADDLE_HEIGHT"
proof (induction rule: reachable.induct)
  case (reach_init uninit draws g rest)
  then show ?case by (rule init_paddles_in_field)
next
  case (reach_tick g clients rs draws g' rest)
  from reach_tick(2) show ?case by (rule tick_paddles_in_field)
qed

text \<open>
  C4. In every reachable state of the simulation (the initial state included) both
  paddle positions lie in \<open>[0, FIELD_HEIGHT - PADDLE_HEIGHT]\<close>, which is \<open>[0, 20]\<close>;
  the same holds right after the input and paddle steps of any tick, and in the state
  any tick leaves behind.
\<close>

theorem paddle_within_field:
  "(reachable g \<longrightarrow>
      0 \<le> pl_y (p1 g) \<and> pl_y (p1 g) \<le> FIELD_HEIGHT - PADDLE_HEIGHT \<and>
      0 \<le> pl_y (p2 g) \<and> pl_y (p2 g) \<le> FIELD_HEIGHT - PADDLE_HEIGHT) \<and>
   0 \<le> pl_y (p1 (update_paddles (handle_inputs cs rs g))) \<and>
   pl_y (p1 (update_paddles (handle_inputs cs rs g))) \<le> FIELD_HEIGHT - PADDLE_HEIGHT \<and>
   0 \<le> pl_y (p2 (update_paddles (handle_inputs cs rs g))) \<and>
   pl_y (p2 (update_paddles (handle_inputs cs rs g))) \<le> FIELD_HEIGHT - PADDLE_HEIGHT \<and>
   (tick cs rs (g, ds) = Some (g', rest) \<longrightarrow>
      0 \<le> pl_y (p1 g') \<and> pl_y (p1 g') \<le> FIELD_HEIGHT - PADDLE_HEIGHT \<and>
      0 \<le> pl_y (p2 g') \<and> pl_y (p2 g') \<le> FIELD_HEIGHT - PADDLE_HEIGHT) \<and>
   FIELD_HEIGHT - PADDLE_HEIGHT = 20"
proof -
  have a: "reachable g \<longrightarrow>
      0 \<le> pl_y (p1 g) \<and> pl_y (p1 g) \<le> FIELD_HEIGHT - PADDLE_HEIGHT \<and>
      0 \<le> pl_y (p2 g) \<and> pl_y (p2 g) \<le> FIELD_HEIGHT - PADDLE_HEIGHT"
    using reachable_paddles_in_field by blast
  have b: "0 \<le> pl_y (p1 (update_paddles (handle_inputs cs rs g))) \<and>
   pl_y (p1 (update_paddles (handle_inputs cs rs g))) \<le> FIELD_HEIGHT - PADDLE_HEIGHT \<and>
   0 \<le> pl_y (p2 (update_paddles (handle_inputs cs rs g))) \<and>
   pl_y (p2 (update_paddles (handle_inputs cs rs g))) \<le> FIELD_HEIGHT - PADDLE_HEIGHT"
    by (simp add: update_paddles_def clamp_paddle_bounds)
  have c: "tick cs rs (g, ds) = Some (g', rest) \<longrightarrow>
      0 \<le> pl_y (p1 g') \<and> pl_y (p1 g') \<le> FIELD_HEIGHT - PADDLE_HEIGHT \<and>
      0 \<le> pl_y (p2 g') \<and> pl_y (p2 g') \<le> FIELD_HEIGHT - PADDLE_HEIGHT"
    using tick_paddles_in_field by blast
  have d: "FIELD_HEIGHT - PADDLE_HEIGHT = 20" by (simp add: pong_consts)
  from a b c d show ?thesis by blast
qed

theorem paddle_within_field_witness:
  "reachable start_game \<and>
   tick both_clients (Some up_message, None) (start_game, []) =
     Some (start_game\<lparr>p1 := \<lparr>pl_y = 9, pl_input = UP\<rparr>,
                      ball := (ball start_game)\<lparr>serve_timer := 179\<rparr>\<rparr>, []) \<and>
   0 \<le> pl_y (p1 start_game) \<and> pl_y (p1 start_game) \<le> 20 \<and>
   0 \<le> pl_y (p2 start_game) \<and> pl_y (p2 start_game) \<le> 20 \<and>
   0 \<le> pl_y (p1 (start_game\<lparr>p1 := \<lparr>pl_y = 9, pl_input = UP\<rparr>,
                      ball := (ball start_game)\<lparr>serve_timer := 179\<rparr>\<rparr>)) \<and>
   pl_y (p1 (start_game\<lparr>p1 := \<lparr>pl_y = 9, pl_input = UP\<rparr>,
                      ball := (ball start_game)\<lparr>serve_timer := 179\<rparr>\<rparr>)) \<le> 20"
  using paddle_within_field[of start_game both_clients "(Some up_message, None)" "[]"
      "start_game\<lparr>p1 := \<lparr>pl_y = 9, pl_input = UP\<rparr>,
                      ball := (ball start_game)\<lparr>serve_timer := 179\<rparr>\<rparr>" "[]"]
    reachable_start tick_start
  by simp

subsection \<open>The serve countdown and the speed\<close>

lemma reset_ball_inv:
  assumes "reset_ball b sp ds = Some (b', rest)"
  shows "serve_inv b'"
proof -
  from reset_ball_Some[OF assms] have
    "b_x b' = 40" "b_y b' = 12" "speed b' = INITIAL_BALL_SPEED" "serve_timer b' = SERVE_TIME"
    by blast+
  then show ?thesis by (simp add: serve_inv_def SERVE_TIME_def FPS_def)
qed

lemma move_ball_inv:
  assumes "serve_inv b"
  shows "serve_inv (move_ball b)"
  using assms by (simp add: serve_inv_def move_ball_def)

lemma serve_inv_cong:
  "b_x c = b_x b \<Longrightarrow> b_y c = b_y b \<Longrightarrow> serve_timer c = serve_timer b \<Longrightarrow> speed c = speed b
   \<Longrightarrow> serve_inv b \<Longrightarrow> serve_inv c"
  by (simp add: serve_inv_def)

lemma tick_inv:
  assumes t: "tick cs rs (g, ds) = Some (g', rest)" and i: "serve_inv (ball g)"
  shows "serve_inv (ball g')"
proof -
  have m: "serve_inv (move_ball (ball g))" using i by (rule move_ball_inv)
  have sp: "speed (move_ball (ball g)) = speed (ball g)" by (simp add: move_ball_def)
  note k = ball_before_scoring_keeps[of cs rs g]
  have bb: "serve_inv (ball_before_scoring cs rs g)"
  proof (rule serve_inv_cong[OF _ _ _ _ m])
    show "b_x (ball_before_scoring cs rs g) = b_x (move_ball (ball g))" using k by blast
    show "b_y (ball_before_scoring cs rs g) = b_y (move_ball (ball g))" using k by blast
    show "serve_timer (ball_before_scoring cs rs g) = serve_timer (move_ball (ball g))"
      using k by blast
    show "speed (ball_before_scoring cs rs g) = speed (move_ball (ball g))"
      using k sp by simp
  qed
  from tick_cases[OF t] consider
      (left) "reset_ball (ball_before_scoring cs rs g) 1 ds = Some (ball g', rest)"
    | (right) "reset_ball (ball_before_scoring cs rs g) 2 ds = Some (ball g', rest)"
    | (play) "ball g' = ball_before_scoring cs rs g"
    by blast
  then show ?thesis
  proof cases
    case left then show ?thesis by (rule reset_ball_inv)
  next
    case right then show ?thesis by (rule reset_ball_inv)
  next
    case play then show ?thesis using bb by simp
  qed
qed

lemma init_inv:
  assumes "init_game u ds = Some (g, rest)"
  shows "serve_inv (ball g)"
proof -
  from assms obtain b where "reset_ball u 1 ds = Some (b, rest)" "ball g = b"
    by (auto simp: init_game_def split: option.splits)
  then show ?thesis using reset_ball_inv by blast
qed

lemma reachable_inv: "reachable g \<Longrightarrow> serve_inv (ball g)"
proof (induction rule: reachable.induct)
  case (reach_init uninit draws g rest)
  then show ?case by (rule init_inv)
next
  case (reach_tick g clients rs draws g' rest)
  then show ?case using tick_inv by blast
qed

text \<open>A tick of the countdown with no input leaves everything but the timer.\<close>

lemma tick_countdown:
  assumes "0 < n" "n \<le> 180"
  shows "tick both_clients (None, None)
           (start_game\<lparr>ball := (ball start_game)\<lparr>serve_timer := n\<rparr>\<rparr>, ds) =
         Some (start_game\<lparr>ball := (ball start_game)\<lparr>serve_timer := n - 1\<rparr>\<rparr>, ds)"
  using assms
  by (simp add: tick_defs start_game_def both_clients_def pong_consts Let_def)

lemma reachable_countdown:
  "k \<le> 180 \<Longrightarrow>
   reachable (start_game\<lparr>ball := (ball start_game)\<lparr>serve_timer := 180 - int k\<rparr>\<rparr>)"
proof (induction k)
  case 0
  have "start_game\<lparr>ball := (ball start_game)\<lparr>serve_timer := 180 - int 0\<rparr>\<rparr> = start_game"
    by (simp add: start_game_def)
  then show ?case using reachable_start by simp
next
  case (Suc k)
  then have r: "reachable (start_game\<lparr>ball := (ball start_game)\<lparr>serve_timer := 180 - int k\<rparr>\<rparr>)"
    by simp
  have "tick both_clients (None, None)
           (start_game\<lparr>ball := (ball start_game)\<lparr>serve_timer := 180 - int k\<rparr>\<rparr>, []) =
         Some (start_game\<lparr>ball := (ball start_game)\<lparr>serve_timer := 180 - int k - 1\<rparr>\<rparr>, [])"
    using Suc.prems by (intro tick_countdown) simp_all
  moreover have "180 - int k - 1 = 180 - int (Suc k)" by simp
  ultimately have "tick both_clients (None, None)
           (start_game\<lparr>ball := (ball start_game)\<lparr>serve_timer := 180 - int k\<rparr>\<rparr>, []) =
         Some (start_game\<lparr>ball := (ball start_game)\<lparr>serve_timer := 180 - int (Suc k)\<rparr>\<rparr>, [])"
    by simp
  with r show ?case by (rule reach_tick)
qed

lemma reachable_serving: "reachable serving_game"
  using reachable_countdown[of 180] by (simp add: serving_game_def)

lemma sqrt3_bounds: "0 < sqrt 3 \<and> sqrt 3 < 2"
proof -
  have "sqrt 3 < 2" by (rule real_less_lsqrt) simp_all
  then show ?thesis by simp
qed

lemma tick_serving:
  "tick both_clients (None, None) (serving_game, []) =
     Some (serving_game\<lparr>ball := (ball serving_game)\<lparr>b_x := 40 + sqrt 3 / 4, b_y := 47 / 4\<rparr>\<rparr>, [])"
proof -
  have f: "\<not> 40 + sqrt 3 / 4 < 0" "\<not> 80 < 40 + sqrt 3 / 4" "\<not> 76 \<le> 40 + sqrt 3 / 4"
    "\<not> 40 + sqrt 3 / 4 \<le> 4"
  proof -
    have l: "0 \<le> sqrt 3" by simp
    have u: "sqrt 3 < 2" using sqrt3_bounds by blast
    show "\<not> 40 + sqrt 3 / 4 < 0" using l by linarith
    show "\<not> 80 < 40 + sqrt 3 / 4" using u by linarith
    show "\<not> 76 \<le> 40 + sqrt 3 / 4" using u by linarith
    show "\<not> 40 + sqrt 3 / 4 \<le> 4" using l by linarith
  qed
  show ?thesis
    by (simp add: tick_defs serving_game_def start_game_def both_clients_def pong_consts
        Let_def f)
qed

subsection \<open>Scoring\<close>

lemma tick_exit_left:
  "tick both_clients (None, None) (exit_left_game, [0]) =
     Some (exit_left_game\<lparr>score2 := 6,
             ball := served_ball\<lparr>b_dx := sqrt 3 / 4\<rparr>\<rparr>, [])"
  by (simp add: tick_defs exit_left_game_def both_clients_def pong_consts Let_def
      reset_ball_def serve_angle_0 sin_30 cos_30 served_ball_def)

lemma tick_returns:
  assumes "(\<exists>r\<in>set ds. 3 / 10 \<le> \<bar>sin (serve_angle r)\<bar>) \<or>
           (0 \<le> b_x (move_ball (ball g)) \<and> b_x (move_ball (ball g)) \<le> real_of_int FIELD_WIDTH)"
  shows "\<exists>h q. tick cs rs (g, ds) = Some (h, q)"
proof -
  let ?H = "ball_physics (update_paddles (handle_inputs cs rs g))"
  have x: "b_x (ball ?H) = b_x (move_ball (ball g))"
    using ball_before_scoring_keeps[of cs rs g] by (simp add: ball_before_scoring_def)
  have t: "tick cs rs (g, ds) = scoring (?H, ds)" by (simp add: tick_def)
  from assms show ?thesis
  proof
    assume "\<exists>r\<in>set ds. 3 / 10 \<le> \<bar>sin (serve_angle r)\<bar>"
    then have "reset_ball b sp ds \<noteq> None" for b sp by (simp only: reset_ball_total)
    then have "\<exists>v. reset_ball b sp ds = Some v" for b sp by blast
    then obtain v1 v2 where v: "reset_ball (ball ?H) 1 ds = Some v1"
      "reset_ball (ball ?H) 2 ds = Some v2" by blast
    have "scoring (?H, ds) \<noteq> None"
      using v by (cases v1; cases v2) (simp add: scoring_def Let_def)
    then obtain w where "scoring (?H, ds) = Some w" by blast
    then have "tick cs rs (g, ds) = Some (fst w, snd w)" using t by simp
    then show ?thesis by blast
  next
    assume "0 \<le> b_x (move_ball (ball g)) \<and> b_x (move_ball (ball g)) \<le> real_of_int FIELD_WIDTH"
    then have "scoring (?H, ds) = Some (?H, ds)" using x by (simp add: scoring_def Let_def)
    then show ?thesis using t by simp
  qed
qed

lemma reachable_countdown_in_field:
  assumes "reachable g" "0 < serve_timer (ball g)"
  shows "0 \<le> b_x (move_ball (ball g)) \<and> b_x (move_ball (ball g)) \<le> real_of_int FIELD_WIDTH"
  using reachable_inv[OF assms(1)] assms(2)
  by (simp add: serve_inv_def move_ball_def FIELD_WIDTH_def)

lemma accepts_draw_0: "3 / 10 \<le> \<bar>sin (serve_angle 0)\<bar>"
  by (simp add: serve_angle_0 sin_30)

lemma tick_scoring:
  assumes "tick cs rs (g, ds) = Some (g', rest)"
  shows "score1 g \<le> score1 g' \<and> score2 g \<le> score2 g' \<and>
         (b_x (move_ball (ball g)) < 0 \<longrightarrow>
            score2 g' = score2 g + 1 \<and> score1 g' = score1 g \<and> 0 < b_dx (ball g') \<and>
            b_x (ball g') = 40 \<and> b_y (ball g') = 12 \<and> serve_timer (ball g') = SERVE_TIME) \<and>
         (real_of_int FIELD_WIDTH < b_x (move_ball (ball g)) \<longrightarrow>
            score1 g' = score1 g + 1 \<and> score2 g' = score2 g \<and> b_dx (ball g') < 0 \<and>
            b_x (ball g') = 40 \<and> b_y (ball g') = 12 \<and> serve_timer (ball g') = SERVE_TIME) \<and>
         (0 \<le> b_x (move_ball (ball g)) \<and> b_x (move_ball (ball g)) \<le> real_of_int FIELD_WIDTH \<longrightarrow>
            score1 g' = score1 g \<and> score2 g' = score2 g)"
proof -
  note c = tick_cases[OF assms]
  have w: "(0::real) < real_of_int FIELD_WIDTH" by (simp add: FIELD_WIDTH_def)
  have r1: "reset_ball b 1 ds = Some (ball g', rest) \<Longrightarrow>
      0 < b_dx (ball g') \<and> b_x (ball g') = 40 \<and> b_y (ball g') = 12 \<and>
      serve_timer (ball g') = SERVE_TIME" for b
    using reset_ball_serve[of b 1 ds "ball g'" rest] by simp
  have r2: "reset_ball b 2 ds = Some (ball g', rest) \<Longrightarrow>
      b_dx (ball g') < 0 \<and> b_x (ball g') = 40 \<and> b_y (ball g') = 12 \<and>
      serve_timer (ball g') = SERVE_TIME" for b
    using reset_ball_serve[of b 2 ds "ball g'" rest] by simp
  from c show ?thesis
  proof (elim disjE)
    assume a: "b_x (move_ball (ball g)) < 0 \<and> score1 g' = score1 g \<and> score2 g' = score2 g + 1 \<and>
          reset_ball (ball_before_scoring cs rs g) 1 ds = Some (ball g', rest)"
    then show ?thesis using r1[of "ball_before_scoring cs rs g"] w by simp
  next
    assume a: "0 \<le> b_x (move_ball (ball g)) \<and> real_of_int FIELD_WIDTH < b_x (move_ball (ball g)) \<and>
          score1 g' = score1 g + 1 \<and> score2 g' = score2 g \<and>
          reset_ball (ball_before_scoring cs rs g) 2 ds = Some (ball g', rest)"
    then show ?thesis using r2[of "ball_before_scoring cs rs g"] w by simp
  next
    assume a: "0 \<le> b_x (move_ball (ball g)) \<and> b_x (move_ball (ball g)) \<le> real_of_int FIELD_WIDTH \<and>
          score1 g' = score1 g \<and> score2 g' = score2 g \<and>
          ball g' = ball_before_scoring cs rs g \<and> rest = ds"
    then show ?thesis by simp
  qed
qed

text \<open>
  C3. A tick returns whenever the draws hold one acceptable serve angle, or the ball
  stays inside the field. In every tick that returns, the ball's horizontal position
  after the movement step decides the scoring: left of 0, player 2 (the right side)
  gains exactly one point, player 1 keeps its score and player 1 (the left side)
  serves, the ball leaving towards the right; right of \<^verbatim>\<open>FIELD_WIDTH\<close> = 80 (for
  instance at x = 81), player 1 gains exactly one point, player 2 keeps its score and
  player 2 serves; in both cases the ball is back at the centre (40, 12) with the serve
  timer at \<^verbatim>\<open>SERVE_TIME\<close>. Inside the field both scores stay. No tick lowers a score.
\<close>

theorem score_on_exit:
  "((\<exists>r\<in>set ds. 3 / 10 \<le> \<bar>sin (serve_angle r)\<bar>) \<or>
    (0 \<le> b_x (move_ball (ball g)) \<and> b_x (move_ball (ball g)) \<le> real_of_int FIELD_WIDTH) \<longrightarrow>
      (\<exists>h q. tick cs rs (g, ds) = Some (h, q))) \<and>
   (tick cs rs (g, ds) = Some (g', rest) \<longrightarrow>
      score1 g \<le> score1 g' \<and> score2 g \<le> score2 g' \<and>
          (b_x (move_ball (ball g)) < 0 \<longrightarrow>
             score2 g' = score2 g + 1 \<and> score1 g' = score1 g \<and> 0 < b_dx (ball g') \<and>
             b_x (ball g') = 40 \<and> b_y (ball g') = 12 \<and> serve_timer (ball g') = SERVE_TIME) \<and>
          (real_of_int FIELD_WIDTH < b_x (move_ball (ball g)) \<longrightarrow>
             score1 g' = score1 g + 1 \<and> score2 g' = score2 g \<and> b_dx (ball g') < 0 \<and>
             b_x (ball g') = 40 \<and> b_y (ball g') = 12 \<and> serve_timer (ball g') = SERVE_TIME) \<and>
          (0 \<le> b_x (move_ball (ball g)) \<and> b_x (move_ball (ball g)) \<le> real_of_int FIELD_WIDTH \<longrightarrow>
             score1 g' = score1 g \<and> score2 g' = score2 g))"
proof (rule conjI; rule impI)
  assume "(\<exists>r\<in>set ds. 3 / 10 \<le> \<bar>sin (serve_angle r)\<bar>) \<or>
    (0 \<le> b_x (move_ball (ball g)) \<and> b_x (move_ball (ball g)) \<le> real_of_int FIELD_WIDTH)"
  then show "\<exists>h q. tick cs rs (g, ds) = Some (h, q)" by (rule tick_returns)
next
  assume "tick cs rs (g, ds) = Some (g', rest)"
  then show "score1 g \<le> score1 g' \<and> score2 g \<le> score2 g' \<and>
          (b_x (move_ball (ball g)) < 0 \<longrightarrow>
             score2 g' = score2 g + 1 \<and> score1 g' = score1 g \<and> 0 < b_dx (ball g') \<and>
             b_x (ball g') = 40 \<and> b_y (ball g') = 12 \<and> serve_timer (ball g') = SERVE_TIME) \<and>
          (real_of_int FIELD_WIDTH < b_x (move_ball (ball g)) \<longrightarrow>
             score1 g' = score1 g + 1 \<and> score2 g' = score2 g \<and> b_dx (ball g') < 0 \<and>
             b_x (ball g') = 40 \<and> b_y (ball g') = 12 \<and> serve_timer (ball g') = SERVE_TIME) \<and>
          (0 \<le> b_x (move_ball (ball g)) \<and> b_x (move_ball (ball g)) \<le> real_of_int FIELD_WIDTH \<longrightarrow>
             score1 g' = score1 g \<and> score2 g' = score2 g)"
    by (rule tick_scoring)
qed

theorem score_on_exit_witness:
  "3 / 10 \<le> \<bar>sin (serve_angle 0)\<bar> \<and>
   tick both_clients (None, None) (exit_right_game, [0]) =
     Some (exit_right_game\<lparr>score1 := 1, ball := served_ball\<rparr>, []) \<and>
   b_x (move_ball (ball exit_right_game)) = 81 \<and>
   score1 (exit_right_game\<lparr>score1 := 1, ball := served_ball\<rparr>) = score1 exit_right_game + 1 \<and>
   score2 (exit_right_game\<lparr>score1 := 1, ball := served_ball\<rparr>) = score2 exit_right_game \<and>
   b_x (ball (exit_right_game\<lparr>score1 := 1, ball := served_ball\<rparr>)) = 40 \<and>
   b_y (ball (exit_right_game\<lparr>score1 := 1, ball := served_ball\<rparr>)) = 12 \<and>
   serve_timer (ball (exit_right_game\<lparr>score1 := 1, ball := served_ball\<rparr>)) = 180 \<and>
   b_dx (ball (exit_right_game\<lparr>score1 := 1, ball := served_ball\<rparr>)) < 0 \<and>
   tick both_clients (None, None) (exit_left_game, [0]) =
     Some (exit_left_game\<lparr>score2 := 6, ball := served_ball\<lparr>b_dx := sqrt 3 / 4\<rparr>\<rparr>, []) \<and>
   b_x (move_ball (ball exit_left_game)) < 0 \<and>
   score2 (exit_left_game\<lparr>score2 := 6, ball := served_ball\<lparr>b_dx := sqrt 3 / 4\<rparr>\<rparr>)
     = score2 exit_left_game + 1 \<and>
   score1 (exit_left_game\<lparr>score2 := 6, ball := served_ball\<lparr>b_dx := sqrt 3 / 4\<rparr>\<rparr>)
     = score1 exit_left_game \<and>
   0 < b_dx (ball (exit_left_game\<lparr>score2 := 6, ball := served_ball\<lparr>b_dx := sqrt 3 / 4\<rparr>\<rparr>))"
proof -
  have m: "b_x (move_ball (ball exit_right_game)) = 81"
    "b_x (move_ball (ball exit_left_game)) < 0"
    by (simp_all add: move_ball_def exit_right_game_def exit_left_game_def)
  show ?thesis
    using score_on_exit[THEN conjunct2, rule_format, OF tick_exit_right]
      score_on_exit[THEN conjunct2, rule_format, OF tick_exit_left] m
      tick_exit_right tick_exit_left accepts_draw_0
    by (simp add: FIELD_WIDTH_def SERVE_TIME_def FPS_def)
qed

text \<open>
  C7. In every reachable state the ball's \<^verbatim>\<open>speed\<close> field is the initial speed 0.5,
  which lies in \<open>[INITIAL_BALL_SPEED, MAX_BALL_SPEED]\<close> = [0.5, 1.2]. A paddle
  collision never changes the speed field or the vertical velocity; of the horizontal
  velocity it changes at most the sign.
\<close>

theorem speed_in_range:
  "(reachable g \<longrightarrow> speed (ball g) = INITIAL_BALL_SPEED \<and>
      INITIAL_BALL_SPEED \<le> speed (ball g) \<and> speed (ball g) \<le> MAX_BALL_SPEED) \<and>
   speed (collide_p1 p b) = speed b \<and> speed (collide_p2 p b) = speed b \<and>
   b_dy (collide_p1 p b) = b_dy b \<and> b_dy (collide_p2 p b) = b_dy b \<and>
   \<bar>b_dx (collide_p1 p b)\<bar> = \<bar>b_dx b\<bar> \<and> \<bar>b_dx (collide_p2 p b)\<bar> = \<bar>b_dx b\<bar> \<and>
   INITIAL_BALL_SPEED = 1 / 2 \<and> MAX_BALL_SPEED = 6 / 5"
proof -
  have r: "reachable g \<longrightarrow> speed (ball g) = INITIAL_BALL_SPEED \<and>
      INITIAL_BALL_SPEED \<le> speed (ball g) \<and> speed (ball g) \<le> MAX_BALL_SPEED"
  proof
    assume "reachable g"
    then have "speed (ball g) = 1 / 2"
      using reachable_inv[of g] by (simp add: serve_inv_def INITIAL_BALL_SPEED_def)
    then show "speed (ball g) = INITIAL_BALL_SPEED \<and>
      INITIAL_BALL_SPEED \<le> speed (ball g) \<and> speed (ball g) \<le> MAX_BALL_SPEED"
      by (simp add: INITIAL_BALL_SPEED_def MAX_BALL_SPEED_def)
  qed
  have c: "speed (collide_p1 p b) = speed b \<and> speed (collide_p2 p b) = speed b \<and>
   b_dy (collide_p1 p b) = b_dy b \<and> b_dy (collide_p2 p b) = b_dy b \<and>
   \<bar>b_dx (collide_p1 p b)\<bar> = \<bar>b_dx b\<bar> \<and> \<bar>b_dx (collide_p2 p b)\<bar> = \<bar>b_dx b\<bar>"
    by (simp add: collide_p1_keeps collide_p2_keeps)
  have d: "INITIAL_BALL_SPEED = 1 / 2 \<and> MAX_BALL_SPEED = 6 / 5"
    by (simp add: INITIAL_BALL_SPEED_def MAX_BALL_SPEED_def)
  from r c d show ?thesis by blast
qed

theorem speed_in_range_witness:
  "reachable serving_game \<and> speed (ball serving_game) = 1 / 2 \<and>
   1 / 2 \<le> speed (ball serving_game) \<and> speed (ball serving_game) \<le> 6 / 5"
  using speed_in_range[of serving_game] reachable_serving
  by (simp add: INITIAL_BALL_SPEED_def MAX_BALL_SPEED_def)

lemma tick_countdown_steps:
  assumes r: "reachable g" and t: "tick cs rs (g, ds) = Some (g', rest)"
  shows "0 \<le> serve_timer (ball g) \<and> 0 \<le> serve_timer (ball g') \<and>
         (0 < serve_timer (ball g) \<longrightarrow>
            serve_timer (move_ball (ball g)) = serve_timer (ball g) - 1 \<and>
            b_x (move_ball (ball g)) = b_x (ball g) \<and> b_y (move_ball (ball g)) = b_y (ball g) \<and>
            serve_timer (ball g') = serve_timer (ball g) - 1 \<and>
            b_x (ball g') = b_x (ball g) \<and> b_y (ball g') = b_y (ball g)) \<and>
         (serve_timer (ball g) = 0 \<longrightarrow>
            b_x (move_ball (ball g)) = b_x (ball g) + b_dx (ball g) \<and>
            b_y (move_ball (ball g)) = b_y (ball g) + b_dy (ball g) \<and>
            serve_timer (move_ball (ball g)) = 0 \<and>
            (if b_x (ball g) + b_dx (ball g) < 0 \<or>
                real_of_int FIELD_WIDTH < b_x (ball g) + b_dx (ball g)
             then b_x (ball g') = 40 \<and> b_y (ball g') = 12 \<and> serve_timer (ball g') = SERVE_TIME
             else b_x (ball g') = b_x (ball g) + b_dx (ball g) \<and>
                  b_y (ball g') = b_y (ball g) + b_dy (ball g) \<and> serve_timer (ball g') = 0)) \<and>
         (serve_timer (ball g') < serve_timer (ball g) \<or>
          serve_timer (ball g') = serve_timer (ball g) \<and> serve_timer (ball g) = 0 \<or>
          serve_timer (ball g') = SERVE_TIME)"
proof -
  have i: "serve_inv (ball g)" using r by (rule reachable_inv)
  have i': "serve_inv (ball g')" using t i by (rule tick_inv)
  note k = ball_before_scoring_keeps[of cs rs g]
  note c = tick_cases[OF t]
  have r1: "reset_ball b sp ds = Some (ball g', rest) \<Longrightarrow>
      b_x (ball g') = 40 \<and> b_y (ball g') = 12 \<and> serve_timer (ball g') = SERVE_TIME" for b sp
    using reset_ball_serve[of b sp ds "ball g'" rest] by simp
  show ?thesis
  proof (cases "0 < serve_timer (ball g)")
    case True
    then have m: "b_x (move_ball (ball g)) = 40" "b_y (move_ball (ball g)) = b_y (ball g)"
      "b_x (ball g) = 40"
      "serve_timer (move_ball (ball g)) = serve_timer (ball g) - 1"
      using i by (simp_all add: move_ball_def serve_inv_def)
    with c have "ball g' = ball_before_scoring cs rs g" by (simp add: FIELD_WIDTH_def)
    with m k True i show ?thesis by (simp add: serve_inv_def)
  next
    case False
    then have z: "serve_timer (ball g) = 0" using i by (simp add: serve_inv_def)
    then have m: "b_x (move_ball (ball g)) = b_x (ball g) + b_dx (ball g)"
      "b_y (move_ball (ball g)) = b_y (ball g) + b_dy (ball g)"
      "serve_timer (move_ball (ball g)) = 0"
      by (simp_all add: move_ball_def)
    from c show ?thesis
    proof (elim disjE)
      assume "b_x (move_ball (ball g)) < 0 \<and> score1 g' = score1 g \<and> score2 g' = score2 g + 1 \<and>
          reset_ball (ball_before_scoring cs rs g) 1 ds = Some (ball g', rest)"
      then show ?thesis using r1[of "ball_before_scoring cs rs g" 1] m k z
        by (simp add: SERVE_TIME_def FPS_def)
    next
      assume "0 \<le> b_x (move_ball (ball g)) \<and> real_of_int FIELD_WIDTH < b_x (move_ball (ball g)) \<and>
          score1 g' = score1 g + 1 \<and> score2 g' = score2 g \<and>
          reset_ball (ball_before_scoring cs rs g) 2 ds = Some (ball g', rest)"
      then show ?thesis using r1[of "ball_before_scoring cs rs g" 2] m k z
        by (simp add: SERVE_TIME_def FPS_def)
    next
      assume "0 \<le> b_x (move_ball (ball g)) \<and> b_x (move_ball (ball g)) \<le> real_of_int FIELD_WIDTH \<and>
          score1 g' = score1 g \<and> score2 g' = score2 g \<and>
          ball g' = ball_before_scoring cs rs g \<and> rest = ds"
      then show ?thesis using m k z by simp
    qed
  qed
qed

text \<open>
  C9. From a reachable state a tick returns whenever the countdown is running or the
  draws hold one acceptable serve angle. For a tick from a reachable state that
  returns: the serve countdown is never negative, before or after. While it is
  positive the tick decrements it by one and leaves the ball's position unchanged.
  When it is zero the movement step adds the velocity to the position; that is the
  position the tick leaves, unless the ball has thereby left the field, in which case
  the serve reset of the same tick puts it at the centre and reloads the countdown.
  Over a tick the countdown decreases, or stays at zero, or is reset to
  \<^verbatim>\<open>SERVE_TIME\<close>.
\<close>

theorem serve_countdown:
  "(reachable g \<and>
    (0 < serve_timer (ball g) \<or> (\<exists>r\<in>set ds. 3 / 10 \<le> \<bar>sin (serve_angle r)\<bar>)) \<longrightarrow>
      (\<exists>h q. tick cs rs (g, ds) = Some (h, q))) \<and>
   (reachable g \<and> tick cs rs (g, ds) = Some (g', rest) \<longrightarrow>
      0 \<le> serve_timer (ball g) \<and> 0 \<le> serve_timer (ball g') \<and>
          (0 < serve_timer (ball g) \<longrightarrow>
             serve_timer (move_ball (ball g)) = serve_timer (ball g) - 1 \<and>
             b_x (move_ball (ball g)) = b_x (ball g) \<and> b_y (move_ball (ball g)) = b_y (ball g) \<and>
             serve_timer (ball g') = serve_timer (ball g) - 1 \<and>
             b_x (ball g') = b_x (ball g) \<and> b_y (ball g') = b_y (ball g)) \<and>
          (serve_timer (ball g) = 0 \<longrightarrow>
             b_x (move_ball (ball g)) = b_x (ball g) + b_dx (ball g) \<and>
             b_y (move_ball (ball g)) = b_y (ball g) + b_dy (ball g) \<and>
             serve_timer (move_ball (ball g)) = 0 \<and>
             (if b_x (ball g) + b_dx (ball g) < 0 \<or>
                 real_of_int FIELD_WIDTH < b_x (ball g) + b_dx (ball g)
              then b_x (ball g') = 40 \<and> b_y (ball g') = 12 \<and> serve_timer (ball g') = SERVE_TIME
              else b_x (ball g') = b_x (ball g) + b_dx (ball g) \<and>
                   b_y (ball g') = b_y (ball g) + b_dy (ball g) \<and> serve_timer (ball g') = 0)) \<and>
          (serve_timer (ball g') < serve_timer (ball g) \<or>
           serve_timer (ball g') = serve_timer (ball g) \<and> serve_timer (ball g) = 0 \<or>
           serve_timer (ball g') = SERVE_TIME))"
proof (rule conjI; rule impI)
  assume a: "reachable g \<and>
    (0 < serve_timer (ball g) \<or> (\<exists>r\<in>set ds. 3 / 10 \<le> \<bar>sin (serve_angle r)\<bar>))"
  then have "(\<exists>r\<in>set ds. 3 / 10 \<le> \<bar>sin (serve_angle r)\<bar>) \<or>
    (0 \<le> b_x (move_ball (ball g)) \<and> b_x (move_ball (ball g)) \<le> real_of_int FIELD_WIDTH)"
    using reachable_countdown_in_field[of g] by blast
  then show "\<exists>h q. tick cs rs (g, ds) = Some (h, q)" by (rule tick_returns)
next
  assume "reachable g \<and> tick cs rs (g, ds) = Some (g', rest)"
  then have r: "reachable g" and t: "tick cs rs (g, ds) = Some (g', rest)" by blast+
  from r t show "0 \<le> serve_timer (ball g) \<and> 0 \<le> serve_timer (ball g') \<and>
          (0 < serve_timer (ball g) \<longrightarrow>
             serve_timer (move_ball (ball g)) = serve_timer (ball g) - 1 \<and>
             b_x (move_ball (ball g)) = b_x (ball g) \<and> b_y (move_ball (ball g)) = b_y (ball g) \<and>
             serve_timer (ball g') = serve_timer (ball g) - 1 \<and>
             b_x (ball g') = b_x (ball g) \<and> b_y (ball g') = b_y (ball g)) \<and>
          (serve_timer (ball g) = 0 \<longrightarrow>
             b_x (move_ball (ball g)) = b_x (ball g) + b_dx (ball g) \<and>
             b_y (move_ball (ball g)) = b_y (ball g) + b_dy (ball g) \<and>
             serve_timer (move_ball (ball g)) = 0 \<and>
             (if b_x (ball g) + b_dx (ball g) < 0 \<or>
                 real_of_int FIELD_WIDTH < b_x (ball g) + b_dx (ball g)
              then b_x (ball g') = 40 \<and> b_y (ball g') = 12 \<and> serve_timer (ball g') = SERVE_TIME
              else b_x (ball g') = b_x (ball g) + b_dx (ball g) \<and>
                   b_y (ball g') = b_y (ball g) + b_dy (ball g) \<and> serve_timer (ball g') = 0)) \<and>
          (serve_timer (ball g') < serve_timer (ball g) \<or>
           serve_timer (ball g') = serve_timer (ball g) \<and> serve_timer (ball g) = 0 \<or>
           serve_timer (ball g') = SERVE_TIME)"
    by (rule tick_countdown_steps)
qed

lemma tick_start_idle:
  "tick both_clients (None, None) (start_game, []) =
     Some (start_game\<lparr>ball := (ball start_game)\<lparr>serve_timer := 179\<rparr>\<rparr>, [])"
  using tick_countdown[of 180 "[]"] by (simp add: start_game_def)

theorem serve_countdown_witness:
  "reachable start_game \<and>
   tick both_clients (None, None) (start_game, []) =
     Some (start_game\<lparr>ball := (ball start_game)\<lparr>serve_timer := 179\<rparr>\<rparr>, []) \<and>
   serve_timer (ball start_game) = 180 \<and>
   serve_timer (ball (start_game\<lparr>ball := (ball start_game)\<lparr>serve_timer := 179\<rparr>\<rparr>)) = 179 \<and>
   b_x (ball (start_game\<lparr>ball := (ball start_game)\<lparr>serve_timer := 179\<rparr>\<rparr>)) = b_x (ball start_game) \<and>
   b_y (ball (start_game\<lparr>ball := (ball start_game)\<lparr>serve_timer := 179\<rparr>\<rparr>)) = b_y (ball start_game) \<and>
   reachable serving_game \<and>
   tick both_clients (None, None) (serving_game, []) =
     Some (serving_game\<lparr>ball := (ball serving_game)\<lparr>b_x := 40 + sqrt 3 / 4, b_y := 47 / 4\<rparr>\<rparr>, []) \<and>
   serve_timer (ball serving_game) = 0 \<and>
   b_x (ball (serving_game\<lparr>ball := (ball serving_game)\<lparr>b_x := 40 + sqrt 3 / 4, b_y := 47 / 4\<rparr>\<rparr>))
     = b_x (ball serving_game) + b_dx (ball serving_game) \<and>
   b_y (ball (serving_game\<lparr>ball := (ball serving_game)\<lparr>b_x := 40 + sqrt 3 / 4, b_y := 47 / 4\<rparr>\<rparr>))
     = b_y (ball serving_game) + b_dy (ball serving_game)"
  using serve_countdown[THEN conjunct2, rule_format, OF conjI, OF reachable_start tick_start_idle]
    serve_countdown[THEN conjunct2, rule_format, OF conjI, OF reachable_serving tick_serving]
    reachable_start tick_start_idle reachable_serving tick_serving
  by (simp add: start_game_def serving_game_def)

subsection \<open>The connection phase\<close>

lemma accept_client_inv:
  "lobby_inv L \<Longrightarrow> lobby_inv (fst (accept_client c r L))"
  by (simp add: accept_client_def lobby_inv_def Let_def)

lemma accept_client_keeps_bound:
  "(conn (clients0 L) \<noteq> None \<longrightarrow> clients0 (fst (accept_client c r L)) = clients0 L) \<and>
   (conn (clients1 L) \<noteq> None \<longrightarrow> clients1 (fst (accept_client c r L)) = clients1 L)"
  by (simp add: accept_client_def Let_def)

lemma wait_for_players_inv:
  "lobby_inv L \<Longrightarrow> lobby_inv (fst (wait_for_players evs L))"
proof (induction evs arbitrary: L)
  case Nil
  then show ?case by simp
next
  case (Cons e es)
  show ?case
  proof (cases "ready L < 2")
    case False
    then show ?thesis using Cons.prems by simp
  next
    case True
    show ?thesis
    proof (cases e)
      case AcceptFailed
      then show ?thesis using True Cons by simp
    next
      case (Accepted c r)
      have "lobby_inv (fst (accept_client c r L))" using Cons.prems by (rule accept_client_inv)
      then have "lobby_inv (fst (wait_for_players es (fst (accept_client c r L))))"
        by (rule Cons.IH)
      then show ?thesis using True Accepted by (simp add: Let_def)
    qed
  qed
qed

lemma wait_for_players_left:
  "ready (fst (wait_for_players evs L)) < 2 \<Longrightarrow> snd (snd (wait_for_players evs L)) = []"
proof (induction evs arbitrary: L)
  case Nil
  then show ?case by simp
next
  case (Cons e es)
  show ?case
  proof (cases "ready L < 2")
    case False
    then show ?thesis using Cons.prems by simp
  next
    case True
    show ?thesis
    proof (cases e)
      case AcceptFailed
      then show ?thesis using True Cons by simp
    next
      case (Accepted c r)
      then show ?thesis using True Cons.prems Cons.IH[of "fst (accept_client c r L)"]
        by (simp add: Let_def)
    qed
  qed
qed

lemma take_takeWhile_eq:
  "length ys = n \<Longrightarrow> (\<forall>c\<in>set ys. P c) \<Longrightarrow>
   (take n (takeWhile P xs) = ys) = (take n xs = ys)"
proof (induction xs arbitrary: n ys)
  case Nil
  then show ?case by simp
next
  case (Cons x xs)
  show ?case
  proof (cases n)
    case 0
    then show ?thesis by simp
  next
    case (Suc m)
    then obtain y ys' where ys: "ys = y # ys'" "length ys' = m"
      using Cons.prems(1) by (cases ys) auto
    have p: "P y" "\<forall>c\<in>set ys'. P c" using Cons.prems(2) ys by simp_all
    show ?thesis
    proof (cases "P x")
      case True
      then show ?thesis using Suc ys Cons.IH[OF ys(2) p(2)] by simp
    next
      case False
      then show ?thesis using Suc ys p(1) by auto
    qed
  qed
qed

lemma strncmp_handshake:
  assumes "length lit = 7" "CHR 0x00 \<notin> set lit"
  shows "strncmp_eq (handshake_buf r) lit 7 = first_seven r lit"
proof -
  have nz: "\<forall>c\<in>set lit. c \<noteq> CHR 0x00" using assms(2) by auto
  have cl: "take 7 (cstr lit) = lit"
    using assms nz by (simp add: cstr_def takeWhile_eq_all_conv[THEN iffD2])
  show ?thesis
proof (cases r)
  case None
  have "lit \<noteq> []" using assms(1) by auto
  then show ?thesis using None
    unfolding strncmp_eq_def cl by (auto simp: handshake_buf_def first_seven_def cstr_def)
next
  case (Some nb)
  let ?k = "if nb_len nb > 31 then 31 else nb_len nb"
  have "strncmp_eq (handshake_buf r) lit 7 = (take 7 (take ?k (nb_data nb)) = lit)"
    unfolding strncmp_eq_def cl using Some take_takeWhile_eq[OF assms(1) nz]
    by (simp add: handshake_buf_def cstr_def)
  also have "\<dots> = (7 \<le> nb_len nb \<and> take 7 (nb_data nb) = lit)"
  proof (cases "7 \<le> nb_len nb")
    case True
    then have "take 7 (take ?k (nb_data nb)) = take 7 (nb_data nb)" by (simp add: min_def)
    then show ?thesis using True by simp
  next
    case False
    then have "length (take 7 (take ?k (nb_data nb))) < 7" by simp
    then have "take 7 (take ?k (nb_data nb)) \<noteq> lit" using assms(1) by auto
    then show ?thesis using False by simp
  qed
  finally show ?thesis using Some by (simp add: first_seven_def)
qed
qed

lemma strncmp_hello:
  "strncmp_eq (handshake_buf r) ''HELLO:1'' 7 = first_seven r ''HELLO:1''"
  "strncmp_eq (handshake_buf r) ''HELLO:2'' 7 = first_seven r ''HELLO:2''"
  by (simp_all add: strncmp_handshake)

lemma handshake_run:
  "wait_for_players handshake_events no_clients =
     (\<lparr>clients0 = fst both_clients, clients1 = snd both_clients, ready = 2\<rparr>,
      [Write 1 (''WELCOME 1'' @ [CHR 0x0A]), CloseDelete 2, CloseDelete 5, CloseDelete 6,
       Write 3 (''WELCOME 2'' @ [CHR 0x0A])],
      [Accepted 4 (Some hello1)])"
  by (simp add: handshake_events_def accept_client_def handshake_buf_def strncmp_eq_def
      cstr_def hello1_def hello2_def cut_hello_def no_clients_def both_clients_def Let_def)

lemma hello13_run:
  "wait_for_players [Accepted 7 (Some hello13)] no_clients =
     (no_clients\<lparr>clients0 := \<lparr>conn = Some 7, cl_id = 1\<rparr>, ready := 1\<rparr>,
      [Write 7 (''WELCOME 1'' @ [CHR 0x0A])], [])"
  by (simp add: accept_client_def handshake_buf_def strncmp_eq_def cstr_def hello13_def
      no_clients_def Let_def)

text \<open>
  C6, as the spec states it, fails: a connection whose claim is \<^verbatim>\<open>HELLO:13\<close>, which
  names neither slot 1 nor slot 2, is bound to slot 1 and welcomed as player 1, not
  closed. The server compares only the first seven bytes.
\<close>

theorem malformed_claim_counterexample:
  "take (nb_len hello13) (nb_data hello13) = ''HELLO:13'' @ [CHR 0x0A] \<and>
   take (nb_len hello13) (nb_data hello13) \<noteq> ''HELLO:1'' @ [CHR 0x0A] \<and>
   take (nb_len hello13) (nb_data hello13) \<noteq> ''HELLO:2'' @ [CHR 0x0A] \<and>
   wait_for_players [Accepted 7 (Some hello13)] no_clients =
     (no_clients\<lparr>clients0 := \<lparr>conn = Some 7, cl_id = 1\<rparr>, ready := 1\<rparr>,
      [Write 7 (''WELCOME 1'' @ [CHR 0x0A])], [])"
  using hello13_run by (simp add: hello13_def)

text \<open>
  C6, amended. While fewer than two players are connected, every accepted connection
  is decided on the first seven bytes received on it, whatever follows them: if they
  are \<^verbatim>\<open>HELLO:1\<close> and slot 1 is free, the connection is bound to slot 1 with id 1 and
  \<^verbatim>\<open>WELCOME 1\<close> is written to it; otherwise, if they are \<^verbatim>\<open>HELLO:2\<close> and slot 2 is
  free, likewise with 2; otherwise (the slot is taken, the first seven bytes are
  something else, fewer than seven bytes arrived, or nothing was received) the
  connection is closed and deleted and the table is unchanged. In each case the loop
  goes on with the next connection; a failed accept changes nothing; with two players
  the loop takes no further connection. From the empty table, \<^verbatim>\<open>ready\<close> always counts
  the bound slots, a bound slot carries its own number as id, and the loop stops early
  only when the events are used up.
\<close>

theorem identity_claims:
  "(ready L < 2 \<and> first_seven r ''HELLO:1'' \<and> conn (clients0 L) = None \<longrightarrow>
      wait_for_players (Accepted c r # es) L =
        (let more = wait_for_players es
                      (L\<lparr>clients0 := \<lparr>conn = Some c, cl_id = 1\<rparr>, ready := ready L + 1\<rparr>)
         in (fst more, Write c (''WELCOME 1'' @ [CHR 0x0A]) # fst (snd more), snd (snd more)))) \<and>
   (ready L < 2 \<and> \<not> (first_seven r ''HELLO:1'' \<and> conn (clients0 L) = None) \<and>
    first_seven r ''HELLO:2'' \<and> conn (clients1 L) = None \<longrightarrow>
      wait_for_players (Accepted c r # es) L =
        (let more = wait_for_players es
                      (L\<lparr>clients1 := \<lparr>conn = Some c, cl_id = 2\<rparr>, ready := ready L + 1\<rparr>)
         in (fst more, Write c (''WELCOME 2'' @ [CHR 0x0A]) # fst (snd more), snd (snd more)))) \<and>
   (ready L < 2 \<and> \<not> (first_seven r ''HELLO:1'' \<and> conn (clients0 L) = None) \<and>
    \<not> (first_seven r ''HELLO:2'' \<and> conn (clients1 L) = None) \<longrightarrow>
      wait_for_players (Accepted c r # es) L =
        (let more = wait_for_players es L
         in (fst more, CloseDelete c # fst (snd more), snd (snd more)))) \<and>
   (ready L < 2 \<longrightarrow> wait_for_players (AcceptFailed # es) L = wait_for_players es L) \<and>
   (2 \<le> ready L \<longrightarrow> wait_for_players evs L = (L, [], evs)) \<and>
   (let final = fst (wait_for_players evs no_clients) in
      ready final = (if conn (clients0 final) = None then 0 else 1) +
                    (if conn (clients1 final) = None then 0 else 1) \<and>
      (conn (clients0 final) \<noteq> None \<longrightarrow> cl_id (clients0 final) = 1) \<and>
      (conn (clients1 final) \<noteq> None \<longrightarrow> cl_id (clients1 final) = 2) \<and>
      (ready final < 2 \<longrightarrow> snd (snd (wait_for_players evs no_clients)) = []))"
proof -
  have a: "ready L < 2 \<and> first_seven r ''HELLO:1'' \<and> conn (clients0 L) = None \<longrightarrow>
      wait_for_players (Accepted c r # es) L =
        (let more = wait_for_players es
                      (L\<lparr>clients0 := \<lparr>conn = Some c, cl_id = 1\<rparr>, ready := ready L + 1\<rparr>)
         in (fst more, Write c (''WELCOME 1'' @ [CHR 0x0A]) # fst (snd more), snd (snd more)))"
    by (simp add: accept_client_def strncmp_hello Let_def)
  have b: "ready L < 2 \<and> \<not> (first_seven r ''HELLO:1'' \<and> conn (clients0 L) = None) \<and>
    first_seven r ''HELLO:2'' \<and> conn (clients1 L) = None \<longrightarrow>
      wait_for_players (Accepted c r # es) L =
        (let more = wait_for_players es
                      (L\<lparr>clients1 := \<lparr>conn = Some c, cl_id = 2\<rparr>, ready := ready L + 1\<rparr>)
         in (fst more, Write c (''WELCOME 2'' @ [CHR 0x0A]) # fst (snd more), snd (snd more)))"
    by (simp add: accept_client_def strncmp_hello Let_def)
  have c: "ready L < 2 \<and> \<not> (first_seven r ''HELLO:1'' \<and> conn (clients0 L) = None) \<and>
    \<not> (first_seven r ''HELLO:2'' \<and> conn (clients1 L) = None) \<longrightarrow>
      wait_for_players (Accepted c r # es) L =
        (let more = wait_for_players es L
         in (fst more, CloseDelete c # fst (snd more), snd (snd more)))"
    by (simp add: accept_client_def strncmp_hello Let_def)
  have d: "ready L < 2 \<longrightarrow> wait_for_players (AcceptFailed # es) L = wait_for_players es L"
    by simp
  have e: "2 \<le> ready L \<longrightarrow> wait_for_players evs L = (L, [], evs)"
    by (cases evs) simp_all
  have "lobby_inv no_clients" by (simp add: lobby_inv_def no_clients_def)
  then have "lobby_inv (fst (wait_for_players evs no_clients))" by (rule wait_for_players_inv)
  then have f: "let final = fst (wait_for_players evs no_clients) in
      ready final = (if conn (clients0 final) = None then 0 else 1) +
                    (if conn (clients1 final) = None then 0 else 1) \<and>
      (conn (clients0 final) \<noteq> None \<longrightarrow> cl_id (clients0 final) = 1) \<and>
      (conn (clients1 final) \<noteq> None \<longrightarrow> cl_id (clients1 final) = 2) \<and>
      (ready final < 2 \<longrightarrow> snd (snd (wait_for_players evs no_clients)) = [])"
    using wait_for_players_left[of evs no_clients] by (simp add: lobby_inv_def Let_def)
  from a b c d e f show ?thesis by blast
qed

theorem identity_claims_witness:
  "ready no_clients < 2 \<and> first_seven (Some hello1) ''HELLO:1'' \<and>
   conn (clients0 no_clients) = None \<and>
   \<not> first_seven (Some hello1) ''HELLO:2'' \<and>
   first_seven (Some hello2) ''HELLO:2'' \<and> \<not> first_seven (Some hello2) ''HELLO:1'' \<and>
   \<not> first_seven (Some cut_hello) ''HELLO:1'' \<and> \<not> first_seven (Some cut_hello) ''HELLO:2'' \<and>
   \<not> first_seven None ''HELLO:1'' \<and> \<not> first_seven None ''HELLO:2'' \<and>
   wait_for_players handshake_events no_clients =
     (\<lparr>clients0 = fst both_clients, clients1 = snd both_clients, ready = 2\<rparr>,
      [Write 1 (''WELCOME 1'' @ [CHR 0x0A]), CloseDelete 2, CloseDelete 5, CloseDelete 6,
       Write 3 (''WELCOME 2'' @ [CHR 0x0A])],
      [Accepted 4 (Some hello1)]) \<and>
   wait_for_players handshake_events no_clients =
     (let more = wait_for_players (tl handshake_events)
                   (no_clients\<lparr>clients0 := \<lparr>conn = Some 1, cl_id = 1\<rparr>,
                               ready := ready no_clients + 1\<rparr>)
      in (fst more, Write 1 (''WELCOME 1'' @ [CHR 0x0A]) # fst (snd more), snd (snd more)))"
proof -
  have h: "first_seven (Some hello1) ''HELLO:1''" "\<not> first_seven (Some hello1) ''HELLO:2''"
    "first_seven (Some hello2) ''HELLO:2''" "\<not> first_seven (Some hello2) ''HELLO:1''"
    "\<not> first_seven (Some cut_hello) ''HELLO:1''" "\<not> first_seven (Some cut_hello) ''HELLO:2''"
    "\<not> first_seven None ''HELLO:1''" "\<not> first_seven None ''HELLO:2''"
    by (simp_all add: first_seven_def hello1_def hello2_def cut_hello_def)
  have r: "ready no_clients < 2" "conn (clients0 no_clients) = None"
    by (simp_all add: no_clients_def)
  have s: "wait_for_players (Accepted 1 (Some hello1) # tl handshake_events) no_clients =
     (let more = wait_for_players (tl handshake_events)
                   (no_clients\<lparr>clients0 := \<lparr>conn = Some 1, cl_id = 1\<rparr>,
                               ready := ready no_clients + 1\<rparr>)
      in (fst more, Write 1 (''WELCOME 1'' @ [CHR 0x0A]) # fst (snd more), snd (snd more)))"
    using identity_claims[of no_clients "Some hello1" 1 "tl handshake_events"] h(1) r
    by blast
  have e: "Accepted 1 (Some hello1) # tl handshake_events = handshake_events"
    by (simp add: handshake_events_def)
  show ?thesis using h r handshake_run s[unfolded e] by simp
qed

subsection \<open>Input commands\<close>













section \<open>Properties of the client\<close>

lemmas scan_defs = sscanf_state_def state_format_def scan_d_def scan_f_def scan_sign_def
  scan_fraction_def isspace_def isdigit_def digit_value_def digits_value_def cstr_def

lemma process_snapshot_line:
  "process_game_state (sscanf_state zero_snapshot) 0 snapshot_line new_client =
     (1, synced_state, synced_ball)"
  by (simp add: process_game_state_def scan_defs zero_snapshot_def snapshot_line_def
      new_client_def synced_ball_def synced_state_def SERVER_EXPECTED_MESSAGES_def Let_def)

lemma scan_partial_line:
  "sscanf_state zero_snapshot partial_line =
     (4, zero_snapshot\<lparr>new_p1_y := 11, new_p2_y := 12, ball_x := 83 / 2, ball_y := - (25 / 2)\<rparr>)"
  by (simp add: scan_defs zero_snapshot_def partial_line_def Let_def)

lemma run_frames_snoc:
  "run_frames (fs @ [f]) p = predict_frame (fst f) (snd f) (run_frames fs p)"
  by (induction fs arbitrary: p) simp_all

lemma frames_60fps_Suc:
  "frames_60fps (Suc n) = frames_60fps n @ [(real (Suc n) / 60, 1 / 60)]"
  by (simp add: frames_60fps_def)

lemma run_frames_60fps:
  "run_frames (frames_60fps n) synced_ball =
     synced_ball\<lparr>pred_x := 40 + real n / 2, pred_y := 12 + real n / 10,
                 last_update := real n / 60\<rparr>"
proof (induction n)
  case 0
  then show ?case by (simp add: frames_60fps_def synced_ball_def)
next
  case (Suc n)
  have "run_frames (frames_60fps (Suc n)) synced_ball =
      predict_frame (real (Suc n) / 60) (1 / 60)
        (synced_ball\<lparr>pred_x := 40 + real n / 2, pred_y := 12 + real n / 10,
                 last_update := real n / 60\<rparr>)"
    by (simp only: frames_60fps_Suc run_frames_snoc Suc.IH fst_conv snd_conv)
  also have "\<dots> = synced_ball\<lparr>pred_x := 40 + real (Suc n) / 2,
      pred_y := 12 + real (Suc n) / 10, last_update := real (Suc n) / 60\<rparr>"
    by (simp add: predict_frame_def synced_ball_def field_simps)
  finally show ?case .
qed

text \<open>
  C1 at a concrete input: the client processes the snapshot
  \<^verbatim>\<open>STATE:10,12,40.00,12.00,0.50,0.10,0,0,0\<close> at time 0 and then renders at 60 frames
  per second while no further snapshot arrives. The first frame moves the ball by
  (0.5, 0.1), as the spec's scenario says. After 60 frames the snapshot is one second
  old, yet the ball goes on moving: after 120 frames it stands at (100, 24), outside
  the field, and the frame after that still moves it. Each frame sets \<open>last_update\<close>
  to the frame's time, so the age test of line 299 measures the time since the previous
  frame, not since the last snapshot.
\<close>

theorem stale_prediction_keeps_moving:
  "process_game_state (sscanf_state zero_snapshot) 0 snapshot_line new_client =
     (1, synced_state, synced_ball) \<and>
   predict_frame (1 / 60) (1 / 60) synced_ball =
     synced_ball\<lparr>pred_x := 40 + 1 / 2, pred_y := 12 + 1 / 10, last_update := 1 / 60\<rparr> \<and>
   run_frames (frames_60fps 60) synced_ball =
     synced_ball\<lparr>pred_x := 70, pred_y := 18, last_update := 1\<rparr> \<and>
   run_frames (frames_60fps 120) synced_ball =
     synced_ball\<lparr>pred_x := 100, pred_y := 24, last_update := 2\<rparr> \<and>
   predict_frame (121 / 60) (1 / 60) (run_frames (frames_60fps 120) synced_ball) =
     synced_ball\<lparr>pred_x := 100 + 1 / 2, pred_y := 24 + 1 / 10, last_update := 121 / 60\<rparr>"
proof -
  have a: "predict_frame (1 / 60) (1 / 60) synced_ball =
     synced_ball\<lparr>pred_x := 40 + 1 / 2, pred_y := 12 + 1 / 10, last_update := 1 / 60\<rparr>"
    by (simp add: predict_frame_def synced_ball_def)
  have b: "run_frames (frames_60fps 60) synced_ball =
     synced_ball\<lparr>pred_x := 70, pred_y := 18, last_update := 1\<rparr>"
    by (simp add: run_frames_60fps)
  have c: "run_frames (frames_60fps 120) synced_ball =
     synced_ball\<lparr>pred_x := 100, pred_y := 24, last_update := 2\<rparr>"
    by (simp add: run_frames_60fps)
  have d: "predict_frame (121 / 60) (1 / 60) (run_frames (frames_60fps 120) synced_ball) =
     synced_ball\<lparr>pred_x := 100 + 1 / 2, pred_y := 24 + 1 / 10, last_update := 121 / 60\<rparr>"
    unfolding c by (simp add: predict_frame_def synced_ball_def)
  from process_snapshot_line a b c d show ?thesis by blast
qed

text \<open>
  C10. Whenever the \<^verbatim>\<open>sscanf\<close> call does not report nine conversions,
  \<open>process_game_state\<close> returns 0 and leaves the game state and the predicted ball
  exactly as they were, whatever the scanner is and whatever it stored in the locals.
\<close>

theorem malformed_line_ignored:
  "fst (scanf line) \<noteq> SERVER_EXPECTED_MESSAGES \<Longrightarrow>
   process_game_state scanf now line (st, pb) = (0, st, pb)"
  by (simp add: process_game_state_def Let_def)

theorem malformed_line_ignored_witness:
  "fst (sscanf_state zero_snapshot partial_line) = 4 \<and>
   new_p1_y (snd (sscanf_state zero_snapshot partial_line)) = 11 \<and>
   process_game_state (sscanf_state zero_snapshot) 5 partial_line (synced_state, synced_ball) =
     (0, synced_state, synced_ball)"
proof -
  have n: "fst (sscanf_state zero_snapshot partial_line) \<noteq> SERVER_EXPECTED_MESSAGES"
    by (simp add: scan_partial_line SERVER_EXPECTED_MESSAGES_def)
  show ?thesis
    using malformed_line_ignored[of "sscanf_state zero_snapshot" partial_line 5
        synced_state synced_ball] n
    by (simp add: scan_partial_line)
qed

section \<open>The snapshot codec\<close>

lemma of_char_digit_char: "d < 10 \<Longrightarrow> (of_char (digit_char d) :: nat) = 48 + d"
  by (simp add: digit_char_def)

lemma isdigit_digit_char: "d < 10 \<Longrightarrow> isdigit (digit_char d)"
  by (simp add: isdigit_def of_char_digit_char)

lemma digit_value_digit_char: "d < 10 \<Longrightarrow> digit_value (digit_char d) = d"
  by (simp add: digit_value_def of_char_digit_char)

lemma show_nat_digits: "c \<in> set (show_nat n) \<Longrightarrow> isdigit c"
proof (induction n arbitrary: c rule: show_nat.induct)
  case (1 n)
  show ?case
  proof (cases "n < 10")
    case True
    with "1.prems" show ?thesis by (simp add: show_nat.simps[of n] isdigit_digit_char)
  next
    case False
    with "1.prems" have "c \<in> set (show_nat (n div 10)) \<or> c = digit_char (n mod 10)"
      by (auto simp: show_nat.simps[of n])
    then show ?thesis using "1.IH"[OF False] by (auto simp: isdigit_digit_char)
  qed
qed

lemma show_nat_not_Nil: "show_nat n \<noteq> []"
  by (simp add: show_nat.simps[of n])

lemma digits_value_snoc: "digits_value (ds @ [c]) = 10 * digits_value ds + digit_value c"
  by (simp add: digits_value_def)

lemma digits_value_show_nat: "digits_value (show_nat n) = n"
proof (induction n rule: show_nat.induct)
  case (1 n)
  show ?case
  proof (cases "n < 10")
    case True
    then show ?thesis
      by (simp add: show_nat.simps[of n] digits_value_def digit_value_digit_char)
  next
    case False
    then show ?thesis
      using "1.IH"[OF False]
      by (simp add: show_nat.simps[of n] digits_value_snoc digit_value_digit_char)
  qed
qed

lemma no_digit_next_takeWhile: "no_digit_next s \<Longrightarrow> takeWhile isdigit s = []"
  by (cases s) (simp_all add: no_digit_next_def)

lemma no_digit_next_dropWhile: "no_digit_next s \<Longrightarrow> dropWhile isdigit s = s"
  by (cases s) (simp_all add: no_digit_next_def)

lemma takeWhile_digits:
  "(\<And>c. c \<in> set ds \<Longrightarrow> isdigit c) \<Longrightarrow> no_digit_next s \<Longrightarrow> takeWhile isdigit (ds @ s) = ds"
  by (simp add: takeWhile_append2 no_digit_next_takeWhile)

lemma dropWhile_digits:
  "(\<And>c. c \<in> set ds \<Longrightarrow> isdigit c) \<Longrightarrow> no_digit_next s \<Longrightarrow> dropWhile isdigit (ds @ s) = s"
  by (simp add: dropWhile_append2 no_digit_next_dropWhile)

lemma show_nat_hd: "\<exists>c t. show_nat n = c # t \<and> isdigit c"
proof -
  obtain c t where e: "show_nat n = c # t" using show_nat_not_Nil[of n] by (cases "show_nat n") auto
  then have "isdigit c" using show_nat_digits[of c n] by simp
  with e show ?thesis by blast
qed

lemma isdigit_not_special:
  "isdigit c \<Longrightarrow> \<not> isspace c \<and> c \<noteq> CHR ''-'' \<and> c \<noteq> CHR ''+'' \<and> c \<noteq> CHR ''.''
     \<and> c \<noteq> CHR 0x00 \<and> c \<noteq> CHR 0x0A \<and> c \<noteq> CHR '',''"
  by (auto simp: isdigit_def isspace_def)

lemma scan_d_show_nat:
  assumes "no_digit_next s"
  shows "scan_d (show_nat n @ s) = Some (int n, s)"
proof -
  obtain c t where e: "show_nat n = c # t" "isdigit c" using show_nat_hd by blast
  have sp: "dropWhile isspace (show_nat n @ s) = show_nat n @ s"
    using e isdigit_not_special[of c] by simp
  have sg: "scan_sign (show_nat n @ s) = (False, show_nat n @ s)"
    using e isdigit_not_special[of c] by (simp add: scan_sign_def)
  have t: "takeWhile isdigit (show_nat n @ s) = show_nat n"
    using assms by (intro takeWhile_digits) (auto dest: show_nat_digits)
  have d: "dropWhile isdigit (show_nat n @ s) = s"
    using assms by (intro dropWhile_digits) (auto dest: show_nat_digits)
  show ?thesis
    by (simp add: scan_d_def sp sg t d show_nat_not_Nil digits_value_show_nat)
qed

lemma scan_d_show_int:
  assumes "no_digit_next s"
  shows "scan_d (show_int i @ s) = Some (i, s)"
proof (cases "i < 0")
  case False
  then show ?thesis using scan_d_show_nat[OF assms, of "nat i"] by (simp add: show_int_def)
next
  case True
  let ?n = "nat (- i)"
  have ns: "\<not> isspace CHR ''-''" by (simp add: isspace_def)
  have sg: "scan_sign (CHR ''-'' # show_nat ?n @ s) = (True, show_nat ?n @ s)"
    by (simp add: scan_sign_def)
  have t: "takeWhile isdigit (show_nat ?n @ s) = show_nat ?n"
    using assms by (intro takeWhile_digits) (auto dest: show_nat_digits)
  have d: "dropWhile isdigit (show_nat ?n @ s) = s"
    using assms by (intro dropWhile_digits) (auto dest: show_nat_digits)
  show ?thesis
    using True
    by (simp add: scan_d_def show_int_def ns sg t d show_nat_not_Nil digits_value_show_nat)
qed

lemma round_half_even_nonneg: "0 \<le> x \<Longrightarrow> 0 \<le> round_half_even x"
  by (simp add: round_half_even_def Let_def)

lemma round_half_even_near: "\<bar>real_of_int (round_half_even x) - x\<bar> \<le> 1 / 2"
proof -
  have f: "real_of_int \<lfloor>x\<rfloor> \<le> x" "x < real_of_int \<lfloor>x\<rfloor> + 1" by linarith+
  consider (lo) "x - real_of_int \<lfloor>x\<rfloor> < 1 / 2" | (hi) "x - real_of_int \<lfloor>x\<rfloor> > 1 / 2"
    | (mid) "x - real_of_int \<lfloor>x\<rfloor> = 1 / 2" by linarith
  then show ?thesis
  proof cases
    case lo
    then have "round_half_even x = \<lfloor>x\<rfloor>" by (simp add: round_half_even_def Let_def)
    then show ?thesis using f lo by simp
  next
    case hi
    then have "round_half_even x = \<lfloor>x\<rfloor> + 1" by (simp add: round_half_even_def Let_def)
    then show ?thesis using f hi by simp
  next
    case mid
    then have "round_half_even x = \<lfloor>x\<rfloor> \<or> round_half_even x = \<lfloor>x\<rfloor> + 1"
      by (simp add: round_half_even_def Let_def)
    then show ?thesis using mid by auto
  qed
qed

lemma two_decimals_near: "\<bar>two_decimals x - x\<bar> \<le> 1 / 200"
proof -
  define d where "d = real_of_int (round_half_even (\<bar>x\<bar> * 100)) - \<bar>x\<bar> * 100"
  have n: "\<bar>d\<bar> \<le> 1 / 2" unfolding d_def by (rule round_half_even_near)
  have r: "real_of_int (round_half_even (\<bar>x\<bar> * 100)) = d + \<bar>x\<bar> * 100"
    by (simp add: d_def)
  have e: "\<bar>two_decimals x - x\<bar> = \<bar>d\<bar> / 100"
  proof (cases "x < 0")
    case True
    then have "two_decimals x = - (d + - x * 100) / 100"
      unfolding two_decimals_def r by simp
    then have "two_decimals x - x = (- d) / 100" by (simp add: field_simps)
    then have "\<bar>two_decimals x - x\<bar> = \<bar>(- d) / 100\<bar>" by (rule arg_cong)
    also have "\<dots> = \<bar>d\<bar> / 100" by (simp only: abs_divide abs_minus_cancel abs_numeral)
    finally show ?thesis .
  next
    case False
    then have "two_decimals x = (d + x * 100) / 100"
      unfolding two_decimals_def r by simp
    then have "two_decimals x - x = d / 100" by (simp add: field_simps)
    then have "\<bar>two_decimals x - x\<bar> = \<bar>d / 100\<bar>" by (rule arg_cong)
    also have "\<dots> = \<bar>d\<bar> / 100" by (simp only: abs_divide abs_numeral)
    finally show ?thesis .
  qed
  show ?thesis unfolding e using n by simp
qed

lemma two_digits_value:
  "digits_value [digit_char (h div 10 mod 10), digit_char (h mod 10)] = h mod 100"
proof -
  have "digits_value [digit_char (h div 10 mod 10), digit_char (h mod 10)]
      = 10 * (h div 10 mod 10) + h mod 10"
    by (simp add: digits_value_def digit_value_digit_char)
  also have "\<dots> = h mod (10 * 10)" by (simp only: mod_mult2_eq)
  also have "\<dots> = h mod 100" by simp
  finally show ?thesis .
qed

lemma hundredths: "real (h div 100) + real (h mod 100) / 100 = real h / 100"
proof -
  have "h = 100 * (h div 100) + h mod 100" by simp
  then have "real h = real (100 * (h div 100) + h mod 100)" by simp
  then have "real h = 100 * real (h div 100) + real (h mod 100)"
    by (simp only: of_nat_add of_nat_mult of_nat_numeral)
  then show ?thesis by (simp add: field_simps)
qed

text \<open>Scanning the unsigned part of a printed fixed-point number.\<close>

lemma scan_unsigned_fixed:
  fixes h :: nat and s :: string
  assumes "no_digit_next s"
    and u_def: "u = show_nat (h div 100) @ ''.'' @
      [digit_char (h div 10 mod 10), digit_char (h mod 10)] @ s"
  shows "takeWhile isdigit u = show_nat (h div 100)"
    and "scan_fraction (dropWhile isdigit u) =
           ([digit_char (h div 10 mod 10), digit_char (h mod 10)], s)"
proof -
  have nd: "no_digit_next (''.'' @ [digit_char (h div 10 mod 10), digit_char (h mod 10)] @ s)"
    by (simp add: no_digit_next_def isdigit_def)
  show "takeWhile isdigit u = show_nat (h div 100)"
    unfolding u_def using nd by (intro takeWhile_digits) (auto dest: show_nat_digits)
  have d: "dropWhile isdigit u = ''.'' @ [digit_char (h div 10 mod 10), digit_char (h mod 10)] @ s"
    unfolding u_def using nd by (intro dropWhile_digits) (auto dest: show_nat_digits)
  have t2: "takeWhile isdigit ([digit_char (h div 10 mod 10), digit_char (h mod 10)] @ s)
      = [digit_char (h div 10 mod 10), digit_char (h mod 10)]"
    using assms(1) by (intro takeWhile_digits) (auto simp: isdigit_digit_char)
  have d2: "dropWhile isdigit ([digit_char (h div 10 mod 10), digit_char (h mod 10)] @ s) = s"
    using assms(1) by (intro dropWhile_digits) (auto simp: isdigit_digit_char)
  show "scan_fraction (dropWhile isdigit u) =
           ([digit_char (h div 10 mod 10), digit_char (h mod 10)], s)"
    using t2 d2 by (simp add: d scan_fraction_def)
qed

lemma scan_f_show_fixed2:
  assumes "no_digit_next s"
  shows "scan_f (show_fixed2 x @ s) = Some (two_decimals x, s)"
proof -
  define h where "h = nat (round_half_even (\<bar>x\<bar> * 100))"
  define u where "u = show_nat (h div 100) @ ''.'' @
      [digit_char (h div 10 mod 10), digit_char (h mod 10)] @ s"
  have hr: "real h = real_of_int (round_half_even (\<bar>x\<bar> * 100))"
    using round_half_even_nonneg[of "\<bar>x\<bar> * 100"] by (simp add: h_def)
  have tk: "takeWhile isdigit u = show_nat (h div 100)"
    and fr: "scan_fraction (dropWhile isdigit u) =
           ([digit_char (h div 10 mod 10), digit_char (h mod 10)], s)"
    using scan_unsigned_fixed[OF assms u_def] by simp_all
  obtain c t where e: "show_nat (h div 100) = c # t" "isdigit c" using show_nat_hd by blast
  have uc: "u = c # (t @ ''.'' @ [digit_char (h div 10 mod 10), digit_char (h mod 10)] @ s)"
    by (simp add: u_def e)
  have sp: "dropWhile isspace u = u" using uc isdigit_not_special[OF e(2)] by simp
  have sg: "scan_sign u = (False, u)"
    using uc isdigit_not_special[OF e(2)] by (simp add: scan_sign_def)
  have val: "real (digits_value (show_nat (h div 100))) +
      real (digits_value [digit_char (h div 10 mod 10), digit_char (h mod 10)]) / 10 ^ 2
      = real h / 100"
    by (simp only: digits_value_show_nat two_digits_value) (simp add: hundredths)
  have core: "scan_f u = Some (real h / 100, s)"
    using val by (simp add: scan_f_def sp sg tk fr show_nat_not_Nil Let_def)
  show ?thesis
  proof (cases "x < 0")
    case False
    then have "show_fixed2 x @ s = u" by (simp add: show_fixed2_def h_def u_def Let_def)
    moreover have "two_decimals x = real h / 100" using False by (simp add: two_decimals_def hr)
    ultimately show ?thesis using core by simp
  next
    case True
    then have sx: "show_fixed2 x @ s = CHR ''-'' # u"
      by (simp add: show_fixed2_def h_def u_def Let_def)
    have td: "two_decimals x = - (real h / 100)" using True by (simp add: two_decimals_def hr)
    have ns: "\<not> isspace CHR ''-''" by (simp add: isspace_def)
    have sg2: "scan_sign (CHR ''-'' # u) = (True, u)" by (simp add: scan_sign_def)
    have "scan_f (CHR ''-'' # u) = Some (- (real h / 100), s)"
      using val by (simp add: scan_f_def ns sg2 tk fr show_nat_not_Nil Let_def)
    then show ?thesis by (simp add: sx td)
  qed
qed

lemma plain_append: "plain (a @ b) = (plain a \<and> plain b)"
  by (auto simp: plain_def)

lemma plain_show_nat: "plain (show_nat n)"
  using show_nat_digits[of _ n] isdigit_not_special by (auto simp: plain_def)

lemma plain_show_int: "plain (show_int i)"
  using plain_show_nat by (simp add: show_int_def plain_def)

lemma plain_digit_char: "d < 10 \<Longrightarrow> plain [digit_char d]"
  using isdigit_digit_char[of d] isdigit_not_special[of "digit_char d"] by (auto simp: plain_def)

lemma plain_show_fixed2: "plain (show_fixed2 x)"
proof -
  have "plain ''-''" "plain ''.''" by (simp_all add: plain_def)
  then show ?thesis
    using plain_digit_char[of "nat (round_half_even (\<bar>x\<bar> * 100)) div 10 mod 10"]
      plain_digit_char[of "nat (round_half_even (\<bar>x\<bar> * 100)) mod 10"]
      plain_show_nat[of "nat (round_half_even (\<bar>x\<bar> * 100)) div 100"]
    by (simp add: show_fixed2_def Let_def plain_def)
qed

lemma plain_state_fields: "plain (state_fields g)"
proof -
  have "plain ''STATE:''" "plain '',''" by (simp_all add: plain_def)
  then show ?thesis
    unfolding state_fields_def
    by (simp only: plain_append plain_show_int plain_show_fixed2 simp_thms)
qed

lemma cstr_plain: "plain s \<Longrightarrow> cstr s = s"
  by (auto simp: cstr_def plain_def takeWhile_eq_all_conv)

lemma scan_state_fields:
  "scanf_run state_format (state_fields g) (0, locals) =
     (9, locals\<lparr>new_p1_y := pl_y (p1 g), new_p2_y := pl_y (p2 g),
                ball_x := two_decimals (b_x (ball g)), ball_y := two_decimals (b_y (ball g)),
                ball_dx := two_decimals (b_dx (ball g)), ball_dy := two_decimals (b_dy (ball g)),
                sn_score1 := score1 g, sn_score2 := score2 g,
                timer := serve_timer (ball g)\<rparr>)"
proof -
  have nd: "no_digit_next (CHR '','' # s)" "no_digit_next []" for s
    by (simp_all add: no_digit_next_def isdigit_def)
  have last: "scan_d (show_int i) = Some (i, [])" for i
    using scan_d_show_int[of "[]" i] nd(2) by simp
  show ?thesis
    by (simp add: state_format_def state_fields_def scan_d_show_int scan_f_show_fixed2 nd last)
qed

lemma state_text_fields: "state_text g = state_fields g @ [CHR 0x0A]"
  by (simp add: state_text_def)

lemma next_line_state_text: "next_line (state_text g) = Some (state_fields g, [])"
proof -
  have p: "plain (state_fields g)" by (rule plain_state_fields)
  then have c: "cstr (state_text g) = state_fields g @ [CHR 0x0A]"
    by (simp add: state_text_fields cstr_def plain_def takeWhile_eq_all_conv) auto
  have a: "c \<noteq> CHR 0x0A" if "c \<in> set (state_fields g)" for c
    using p that by (auto simp: plain_def)
  have t: "takeWhile (\<lambda>c. c \<noteq> CHR 0x0A) (state_fields g @ [CHR 0x0A]) = state_fields g"
    by (simp add: takeWhile_append2[OF a])
  have d: "dropWhile (\<lambda>c. c \<noteq> CHR 0x0A) (state_fields g @ [CHR 0x0A]) = [CHR 0x0A]"
    by (simp add: dropWhile_append2[OF a])
  show ?thesis by (simp add: next_line_def c t d)
qed

lemma digit_char_numeral:
  "digit_char 0 = CHR ''0''" "digit_char 1 = CHR ''1''" "digit_char 2 = CHR ''2''"
  "digit_char 3 = CHR ''3''" "digit_char 4 = CHR ''4''" "digit_char 5 = CHR ''5''"
  "digit_char 6 = CHR ''6''" "digit_char 7 = CHR ''7''" "digit_char 8 = CHR ''8''"
  "digit_char 9 = CHR ''9''" "digit_char (Suc 0) = CHR ''1''"
  by (simp_all add: digit_char_def char_of_def bit_Suc_0_iff)

text \<open>A sufficient condition for the line to fit the buffer.\<close>

lemma length_show_nat: "0 < k \<Longrightarrow> n < 10 ^ k \<Longrightarrow> length (show_nat n) \<le> k"
proof (induction n arbitrary: k rule: show_nat.induct)
  case (1 n)
  show ?case
  proof (cases "n < 10")
    case True
    then show ?thesis using "1.prems" by (simp add: show_nat.simps[of n])
  next
    case False
    obtain j where k: "k = Suc j" using "1.prems"(1) by (cases k) auto
    have "j \<noteq> 0" using False "1.prems"(2) k by (cases j) auto
    then have j: "0 < j" by simp
    have "n div 10 < 10 ^ j" using "1.prems"(2) k by (simp add: less_mult_imp_div_less mult.commute)
    then have "length (show_nat (n div 10)) \<le> j" using "1.IH"[OF False j] by simp
    then show ?thesis using False k by (simp add: show_nat.simps[of n])
  qed
qed

lemma length_show_int:
  assumes "- (2 ^ 31) \<le> i" "i < 2 ^ 31"
  shows "length (show_int i) \<le> 11"
proof -
  have "nat \<bar>i\<bar> < 10 ^ 10" using assms by simp
  then have "length (show_nat (nat \<bar>i\<bar>)) \<le> 10" by (intro length_show_nat) simp_all
  then show ?thesis by (auto simp: show_int_def abs_if split: if_splits)
qed

lemma length_show_fixed2:
  assumes "\<bar>x\<bar> \<le> 10 ^ 9"
  shows "length (show_fixed2 x) \<le> 14"
proof -
  define h where "h = nat (round_half_even (\<bar>x\<bar> * 100))"
  have "real_of_int (round_half_even (\<bar>x\<bar> * 100)) \<le> \<bar>x\<bar> * 100 + 1 / 2"
    using round_half_even_near[of "\<bar>x\<bar> * 100"] by linarith
  also have "\<dots> \<le> 10 ^ 11 + 1 / 2" using assms by simp
  finally have "real_of_int (round_half_even (\<bar>x\<bar> * 100)) < real_of_int (10 ^ 11 + 1)" by simp
  then have "round_half_even (\<bar>x\<bar> * 100) < 10 ^ 11 + 1" by (simp only: of_int_less_iff)
  then have "h < 10 ^ 11 + 1" by (simp add: h_def)
  then have "h div 100 < 10 ^ 10" by simp
  then have "length (show_nat (h div 100)) \<le> 10" by (intro length_show_nat) simp_all
  then show ?thesis by (simp add: show_fixed2_def Let_def h_def[symmetric])
qed

lemma state_text_fits:
  assumes "\<forall>i \<in> {pl_y (p1 g), pl_y (p2 g), score1 g, score2 g, serve_timer (ball g)}.
             - (2 ^ 31) \<le> i \<and> i < 2 ^ 31"
    and "\<forall>x \<in> {b_x (ball g), b_y (ball g), b_dx (ball g), b_dy (ball g)}. \<bar>x\<bar> \<le> 10 ^ 9"
  shows "length (state_text g) \<le> 127"
proof -
  have i: "length (show_int (pl_y (p1 g))) \<le> 11" "length (show_int (pl_y (p2 g))) \<le> 11"
    "length (show_int (score1 g)) \<le> 11" "length (show_int (score2 g)) \<le> 11"
    "length (show_int (serve_timer (ball g))) \<le> 11"
    using assms(1) by (simp_all add: length_show_int)
  have f: "length (show_fixed2 (b_x (ball g))) \<le> 14" "length (show_fixed2 (b_y (ball g))) \<le> 14"
    "length (show_fixed2 (b_dx (ball g))) \<le> 14" "length (show_fixed2 (b_dy (ball g))) \<le> 14"
    using assms(2) by (simp_all add: length_show_fixed2)
  show ?thesis using i f by (simp add: state_text_def state_fields_def)
qed

subsection \<open>The snapshots of reachable states\<close>

lemma half_cos: "\<bar>s * (1 / 2) * cos a\<bar> \<le> 1 / 2" if "\<bar>s\<bar> = 1" for s a :: real
proof -
  have "\<bar>s * (1 / 2) * cos a\<bar> = \<bar>cos a\<bar> / 2" using that by (simp add: abs_mult)
  then show ?thesis using abs_cos_le_one[of a] by simp
qed

lemma half_sin: "\<bar>(1 / 2) * sin a\<bar> \<le> 1 / 2" for a :: real
proof -
  have "\<bar>(1 / 2) * sin a\<bar> = \<bar>sin a\<bar> / 2" by (simp add: abs_mult)
  then show ?thesis using abs_sin_le_one[of a] by simp
qed

lemma reset_ball_flight:
  assumes "reset_ball b sp ds = Some (b', rest)"
  shows "flight_inv b'"
proof -
  from reset_ball_Some[OF assms] obtain a where
    f: "b_x b' = 40" "b_y b' = 12"
       "b_dx b' = (if sp = 1 then 1 else - 1) * INITIAL_BALL_SPEED * cos a"
       "b_dy b' = INITIAL_BALL_SPEED * sin a"
    by blast
  have "\<bar>b_dx b'\<bar> \<le> 1 / 2"
    unfolding f(3) INITIAL_BALL_SPEED_def by (rule half_cos) simp
  moreover have "\<bar>b_dy b'\<bar> \<le> 1 / 2"
    unfolding f(4) INITIAL_BALL_SPEED_def by (rule half_sin)
  ultimately show ?thesis using f(1,2) by (simp add: flight_inv_def)
qed

lemma bounce_move_flight:
  assumes s: "serve_inv b" and f: "flight_inv b"
  defines "m \<equiv> bounce_edges (move_ball b)"
  shows "\<bar>b_dx m\<bar> \<le> 1 / 2 \<and> \<bar>b_dy m\<bar> \<le> 1 / 2 \<and>
         (b_y m < 0 \<longrightarrow> 0 \<le> b_y m + b_dy m) \<and> (23 < b_y m \<longrightarrow> b_y m + b_dy m \<le> 23)"
proof (cases "0 < serve_timer b")
  case True
  then have "b_y b = 12" using s by (simp add: serve_inv_def)
  then show ?thesis using True f
    by (simp add: m_def bounce_edges_def move_ball_def flight_inv_def FIELD_HEIGHT_def)
next
  case False
  have d: "\<bar>b_dx b\<bar> \<le> 1 / 2" "\<bar>b_dy b\<bar> \<le> 1 / 2"
    and lo: "b_y b < 0 \<longrightarrow> 0 \<le> b_y b + b_dy b"
    and hi: "23 < b_y b \<longrightarrow> b_y b + b_dy b \<le> 23"
    using f by (simp_all add: flight_inv_def)
  let ?y = "b_y b + b_dy b"
  have mv: "b_y (move_ball b) = ?y" "b_dy (move_ball b) = b_dy b" "b_dx (move_ball b) = b_dx b"
    using False by (simp_all add: move_ball_def)
  consider (below) "?y < 0" | (above) "23 < ?y" | (inside) "0 \<le> ?y \<and> ?y \<le> 23" by linarith
  then show ?thesis
  proof cases
    case below
    then have y0: "0 \<le> b_y b" using lo by linarith
    have "b_y m = ?y" "b_dy m = - b_dy b" "b_dx m = b_dx b"
      using below mv by (simp_all add: m_def bounce_edges_def)
    then show ?thesis using below y0 d by simp
  next
    case above
    then have y0: "b_y b \<le> 23" using hi by linarith
    have "b_y m = ?y" "b_dy m = - b_dy b" "b_dx m = b_dx b"
      using above mv by (simp_all add: m_def bounce_edges_def FIELD_HEIGHT_def)
    then show ?thesis using above y0 d by simp
  next
    case inside
    have "b_y m = ?y" "b_dy m = b_dy b" "b_dx m = b_dx b"
      using inside mv by (simp_all add: m_def bounce_edges_def FIELD_HEIGHT_def)
    then show ?thesis using inside d by simp
  qed
qed

lemma tick_flight:
  assumes t: "tick cs rs (g, ds) = Some (g', rest)"
    and s: "serve_inv (ball g)" and f: "flight_inv (ball g)"
  shows "flight_inv (ball g')"
proof -
  let ?m = "bounce_edges (move_ball (ball g))"
  let ?u = "update_paddles (handle_inputs cs rs g)"
  have bb: "ball_before_scoring cs rs g = collide_p2 (p2 ?u) (collide_p1 (p1 ?u) ?m)"
    by (simp add: ball_before_scoring_def ball_physics_def update_paddles_keeps
        handle_inputs_keeps)
  have k: "b_y (ball_before_scoring cs rs g) = b_y ?m"
    "b_dy (ball_before_scoring cs rs g) = b_dy ?m"
    "\<bar>b_dx (ball_before_scoring cs rs g)\<bar> = \<bar>b_dx ?m\<bar>"
    by (simp_all add: bb collide_p1_keeps collide_p2_keeps)
  note x = ball_before_scoring_keeps[of cs rs g]
  note bm = bounce_move_flight[OF s f]
  from tick_cases[OF t] consider
      (left) "reset_ball (ball_before_scoring cs rs g) 1 ds = Some (ball g', rest)"
    | (right) "reset_ball (ball_before_scoring cs rs g) 2 ds = Some (ball g', rest)"
    | (play) "0 \<le> b_x (move_ball (ball g))" "b_x (move_ball (ball g)) \<le> real_of_int FIELD_WIDTH"
        "ball g' = ball_before_scoring cs rs g"
    by blast
  then show ?thesis
  proof cases
    case left then show ?thesis by (rule reset_ball_flight)
  next
    case right then show ?thesis by (rule reset_ball_flight)
  next
    case play
    then show ?thesis using k x bm by (simp add: flight_inv_def FIELD_WIDTH_def)
  qed
qed

lemma reachable_flight: "reachable g \<Longrightarrow> flight_inv (ball g)"
proof (induction rule: reachable.induct)
  case (reach_init uninit draws g rest)
  then obtain b where "reset_ball uninit 1 draws = Some (b, rest)" "ball g = b"
    by (auto simp: init_game_def split: option.splits)
  then show ?case using reset_ball_flight by blast
next
  case (reach_tick g clients rs draws g' rest)
  show ?case
    using reach_tick(2) reachable_inv[OF reach_tick(1)] reach_tick(3) by (rule tick_flight)
qed

lemma reachable_scores: "reachable g \<Longrightarrow> 0 \<le> score1 g \<and> 0 \<le> score2 g"
proof (induction rule: reachable.induct)
  case (reach_init uninit draws g rest)
  then show ?case by (auto simp: init_game_def split: option.splits)
next
  case (reach_tick g clients rs draws g' rest)
  from tick_cases[OF reach_tick(2)] have "score1 g \<le> score1 g' \<and> score2 g \<le> score2 g'"
    by auto
  then show ?case using reach_tick(3) by linarith
qed

lemma reachable_fits:
  assumes r: "reachable g" and s: "score1 g < 2 ^ 31" "score2 g < 2 ^ 31"
  shows "length (state_text g) \<le> 127"
proof (rule state_text_fits)
  have p: "0 \<le> pl_y (p1 g)" "pl_y (p1 g) \<le> 20" "0 \<le> pl_y (p2 g)" "pl_y (p2 g) \<le> 20"
    using reachable_paddles_in_field[OF r] by (simp_all add: pong_consts)
  have t: "0 \<le> serve_timer (ball g)" "serve_timer (ball g) \<le> 180"
    using reachable_inv[OF r] by (simp_all add: serve_inv_def pong_consts)
  have c: "0 \<le> score1 g" "0 \<le> score2 g" using reachable_scores[OF r] by simp_all
  show "\<forall>i\<in>{pl_y (p1 g), pl_y (p2 g), score1 g, score2 g, serve_timer (ball g)}.
       - (2 ^ 31) \<le> i \<and> i < 2 ^ 31"
    using p t c s by simp
  have f: "flight_inv (ball g)" using r by (rule reachable_flight)
  then have "0 \<le> b_x (ball g)" "b_x (ball g) \<le> 80" "\<bar>b_dx (ball g)\<bar> \<le> 1 / 2"
    "\<bar>b_dy (ball g)\<bar> \<le> 1 / 2" "- (1 / 2) \<le> b_y (ball g)" "b_y (ball g) \<le> 47 / 2"
    by (auto simp: flight_inv_def)
  then show "\<forall>x\<in>{b_x (ball g), b_y (ball g), b_dx (ball g), b_dy (ball g)}. \<bar>x\<bar> \<le> 10 ^ 9"
    by simp
qed

lemma show_nat_small: "n < 10 \<Longrightarrow> show_nat n = [digit_char n]"
  by (simp add: show_nat.simps)

lemma rounding_fields:
  "state_fields rounding_game = ''STATE:7,15,40.13,11.99,-0.43,0.25,3,11,0''"
  by (simp add: state_fields_def rounding_game_def show_int_def show_fixed2_def
      round_half_even_def Let_def show_nat.simps digit_char_numeral)

lemma rounding_fits: "length (state_text rounding_game) \<le> 127"
  by (simp add: state_text_fields rounding_fields)

lemma sqrt3_tight: "172 / 100 \<le> sqrt 3 \<and> sqrt 3 < 174 / 100"
proof -
  have "(172 / 100 :: real) \<le> sqrt 3" by (rule real_le_rsqrt) (simp add: power2_eq_square)
  moreover have "sqrt 3 < (174 / 100 :: real)"
    by (rule real_less_lsqrt) (simp_all add: power2_eq_square)
  ultimately show ?thesis by blast
qed

lemma round_25_sqrt3: "round_half_even (25 * sqrt 3) = 43"
proof -
  have b: "43 \<le> 25 * sqrt 3" "25 * sqrt 3 < 435 / 10" using sqrt3_tight by linarith+
  have f: "\<lfloor>25 * sqrt 3\<rfloor> = 43" using b by (intro floor_unique) simp_all
  show ?thesis using b by (simp add: round_half_even_def Let_def f)
qed

lemma round_serve_dx: "round_half_even (\<bar>sqrt 3 / 4\<bar> * 100) = 43"
proof -
  have a: "\<bar>sqrt 3 / 4\<bar> * 100 = 25 * sqrt 3" by simp
  show ?thesis unfolding a by (rule round_25_sqrt3)
qed

lemma start_fields:
  "state_fields start_game = ''STATE:10,10,40.00,12.00,0.43,-0.25,0,0,180''"
proof -
  have r: "round_half_even 4000 = 4000" "round_half_even 1200 = 1200" "round_half_even 25 = 25"
    by (simp_all add: round_half_even_def Let_def)
  show ?thesis
    by (simp add: state_fields_def start_game_def show_int_def show_fixed2_def r
        round_25_sqrt3 Let_def show_nat.simps digit_char_numeral)
qed

lemma start_two_decimals:
  "two_decimals (b_x (ball start_game)) = 40" "two_decimals (b_y (ball start_game)) = 12"
  "two_decimals (b_dx (ball start_game)) = 43 / 100"
  "two_decimals (b_dy (ball start_game)) = - (1 / 4)"
proof -
  have r: "round_half_even 4000 = 4000" "round_half_even 1200 = 1200" "round_half_even 25 = 25"
    by (simp_all add: round_half_even_def Let_def)
  show "two_decimals (b_x (ball start_game)) = 40" "two_decimals (b_y (ball start_game)) = 12"
    "two_decimals (b_dy (ball start_game)) = - (1 / 4)"
    by (simp_all add: two_decimals_def start_game_def r)
  have "two_decimals (sqrt 3 / 4) = 43 / 100"
    unfolding two_decimals_def round_serve_dx by simp
  then show "two_decimals (b_dx (ball start_game)) = 43 / 100" by (simp add: start_game_def)
qed

text \<open>
  C8. Every state of the simulation whose scores are below \<open>2 ^ 31\<close> (the range of
  the C \<^verbatim>\<open>int\<close>) yields a line that fits the 127 characters that the server's buffer
  holds. For every state whose line fits: the client's line splitting recovers exactly
  the text before the newline; scanning it reports nine conversions; the five integer
  fields come back exactly and each of the four ball fields comes back as its value
  rounded to two decimals; \<open>process_game_state\<close> returns 1 and stores exactly these
  values. In this model, where floats are reals, the rounded value is at most 0.005
  from the original; the further rounding of the scanned decimal to the nearest
  \<^verbatim>\<open>float\<close> is not modelled.
\<close>

theorem snapshot_roundtrip:
  "(reachable g \<and> score1 g < 2 ^ 31 \<and> score2 g < 2 ^ 31 \<longrightarrow> length (state_text g) \<le> 127) \<and>
   (length (state_text g) \<le> 127 \<longrightarrow>
      next_line (snprintf_state 128 g) = Some (state_fields g, []) \<and>
      sscanf_state locals (state_fields g) =
        (9, \<lparr>new_p1_y = pl_y (p1 g), new_p2_y = pl_y (p2 g),
             ball_x = two_decimals (b_x (ball g)), ball_y = two_decimals (b_y (ball g)),
             ball_dx = two_decimals (b_dx (ball g)), ball_dy = two_decimals (b_dy (ball g)),
             sn_score1 = score1 g, sn_score2 = score2 g,
             timer = serve_timer (ball g)\<rparr>) \<and>
      \<bar>two_decimals (b_x (ball g)) - b_x (ball g)\<bar> \<le> 1 / 200 \<and>
      \<bar>two_decimals (b_y (ball g)) - b_y (ball g)\<bar> \<le> 1 / 200 \<and>
      \<bar>two_decimals (b_dx (ball g)) - b_dx (ball g)\<bar> \<le> 1 / 200 \<and>
      \<bar>two_decimals (b_dy (ball g)) - b_dy (ball g)\<bar> \<le> 1 / 200 \<and>
      process_game_state (sscanf_state locals) now (state_fields g) (st, pb) =
        (1,
         st\<lparr>p1_y := pl_y (p1 g), p2_y := pl_y (p2 g), gs_score1 := score1 g,
            gs_score2 := score2 g, gs_serve_timer := serve_timer (ball g)\<rparr>,
         pb\<lparr>pred_x := two_decimals (b_x (ball g)), pred_y := two_decimals (b_y (ball g)),
            pred_dx := two_decimals (b_dx (ball g)),
            pred_dy := two_decimals (b_dy (ball g)), last_update := now, valid := 1\<rparr>))"
proof (intro conjI impI)
  assume "reachable g \<and> score1 g < 2 ^ 31 \<and> score2 g < 2 ^ 31"
  then show "length (state_text g) \<le> 127" using reachable_fits by blast
next
  assume fit: "length (state_text g) \<le> 127"
  have full: "snprintf_state 128 g = state_text g"
    using fit by (simp add: snprintf_state_def)
  show "next_line (snprintf_state 128 g) = Some (state_fields g, [])"
    by (simp only: full next_line_state_text)
  show sc: "sscanf_state locals (state_fields g) =
        (9, \<lparr>new_p1_y = pl_y (p1 g), new_p2_y = pl_y (p2 g),
             ball_x = two_decimals (b_x (ball g)), ball_y = two_decimals (b_y (ball g)),
             ball_dx = two_decimals (b_dx (ball g)), ball_dy = two_decimals (b_dy (ball g)),
             sn_score1 = score1 g, sn_score2 = score2 g,
             timer = serve_timer (ball g)\<rparr>)"
    by (simp add: sscanf_state_def cstr_plain[OF plain_state_fields] scan_state_fields)
  show "process_game_state (sscanf_state locals) now (state_fields g) (st, pb) =
        (1,
         st\<lparr>p1_y := pl_y (p1 g), p2_y := pl_y (p2 g), gs_score1 := score1 g,
            gs_score2 := score2 g, gs_serve_timer := serve_timer (ball g)\<rparr>,
         pb\<lparr>pred_x := two_decimals (b_x (ball g)), pred_y := two_decimals (b_y (ball g)),
            pred_dx := two_decimals (b_dx (ball g)),
            pred_dy := two_decimals (b_dy (ball g)), last_update := now, valid := 1\<rparr>)"
    by (simp add: process_game_state_def sc SERVER_EXPECTED_MESSAGES_def Let_def)
qed (rule two_decimals_near)+

theorem snapshot_roundtrip_witness:
  "reachable start_game \<and> score1 start_game < 2 ^ 31 \<and> score2 start_game < 2 ^ 31 \<and>
   length (state_text start_game) \<le> 127 \<and>
   next_line (snprintf_state 128 start_game) =
     Some (''STATE:10,10,40.00,12.00,0.43,-0.25,0,0,180'', []) \<and>
   sscanf_state zero_snapshot ''STATE:10,10,40.00,12.00,0.43,-0.25,0,0,180'' =
     (9, \<lparr>new_p1_y = 10, new_p2_y = 10, ball_x = 40, ball_y = 12,
           ball_dx = 43 / 100, ball_dy = - (1 / 4), sn_score1 = 0, sn_score2 = 0,
           timer = 180\<rparr>) \<and>
   length (state_text rounding_game) \<le> 127 \<and>
   next_line (snprintf_state 128 rounding_game) =
     Some (''STATE:7,15,40.13,11.99,-0.43,0.25,3,11,0'', []) \<and>
   sscanf_state zero_snapshot ''STATE:7,15,40.13,11.99,-0.43,0.25,3,11,0'' =
     (9, \<lparr>new_p1_y = 7, new_p2_y = 15, ball_x = 4013 / 100, ball_y = 1199 / 100,
           ball_dx = - (43 / 100), ball_dy = 1 / 4, sn_score1 = 3, sn_score2 = 11,
           timer = 0\<rparr>)"
proof -
  have s: "score1 start_game < 2 ^ 31" "score2 start_game < 2 ^ 31"
    by (simp_all add: start_game_def)
  have sf: "pl_y (p1 start_game) = 10" "pl_y (p2 start_game) = 10"
    "score1 start_game = 0" "score2 start_game = 0" "serve_timer (ball start_game) = 180"
    by (simp_all add: start_game_def)
  have t: "two_decimals (b_x (ball rounding_game)) = 4013 / 100"
    "two_decimals (b_y (ball rounding_game)) = 1199 / 100"
    "two_decimals (b_dx (ball rounding_game)) = - (43 / 100)"
    "two_decimals (b_dy (ball rounding_game)) = 1 / 4"
    by (simp_all add: two_decimals_def round_half_even_def rounding_game_def Let_def)
  have f: "pl_y (p1 rounding_game) = 7" "pl_y (p2 rounding_game) = 15"
    "score1 rounding_game = 3" "score2 rounding_game = 11"
    "serve_timer (ball rounding_game) = 0"
    by (simp_all add: rounding_game_def)
  have a: "length (state_text start_game) \<le> 127"
    using snapshot_roundtrip[of start_game] reachable_start s by blast
  note b = snapshot_roundtrip[of start_game zero_snapshot, THEN conjunct2, rule_format, OF a]
  note c = snapshot_roundtrip[of rounding_game zero_snapshot, THEN conjunct2, rule_format,
      OF rounding_fits]
  show ?thesis
    using reachable_start s a b c rounding_fits
    by (simp add: start_fields start_two_decimals sf rounding_fields t f)
qed

end
